theory Spec2Isabelle
  imports Main "HOL-Library.Word" "HOL-Library.AList"
begin

section \<open>tsnet: an embedded Tailscale server\<close>

text \<open>
  A shallow embedding of \<^verbatim>\<open>tsnet/tsnet.go\<close>. The \<^verbatim>\<open>Server\<close> struct, the listener
  objects it points to, the files it touches and the effects it has on its collaborators
  are one explicit state; every method takes the state and returns the new one. What the
  Go runtime decides (a blocked \<^verbatim>\<open>Lock\<close>, a panic) is a value of type \<open>fault\<close>.
\<close>

subsection \<open>Errors\<close>

text \<open>
  Go errors are kept as the expression that builds them: \<^verbatim>\<open>fmt.Errorf(format, args...)\<close>
  is \<open>Errorf format args\<close> (the format is not expanded, so a \<^verbatim>\<open>%w\<close> or \<^verbatim>\<open>%v\<close>
  argument is still the error it was), \<^verbatim>\<open>net.ErrClosed\<close> is \<open>ErrClosed\<close>, the errors
  of package \<^verbatim>\<open>os\<close> carry their errno, and \<open>Opaque\<close> is an error returned by a
  collaborator package.
\<close>

datatype errno = ENOENT | ENOTDIR | EISDIR | ENOTEMPTY | EIO

datatype error =
    Errorf string "fmtarg list"
  | AddrError string string
  | ErrClosed
  | PathError string string errno
  | LinkError string string string errno
  | Opaque string
and fmtarg = S string | E error

datatype fault = Deadlock | Panic string

text \<open>\<^verbatim>\<open>os.IsNotExist\<close>, on an error that is not nil.\<close>

fun IsNotExist :: "error \<Rightarrow> bool" where
  "IsNotExist (PathError _ _ en) = (en = ENOENT)"
| "IsNotExist (LinkError _ _ _ en) = (en = ENOENT)"
| "IsNotExist _ = False"

subsection \<open>The file system\<close>

text \<open>
  The state directory logic only asks whether a path exists and whether it is a
  directory, so the file system is a flat table from paths to what \<^verbatim>\<open>Lstat\<close> finds
  there. \<open>Unreadable\<close> is a path whose \<^verbatim>\<open>Lstat\<close> fails with an error other than
  "does not exist". Symbolic links and the contents of directories are not modelled.
\<close>

datatype fsnode = Absent | Directory | NonDirectory | Unreadable

type_synonym filesystem = "string \<Rightarrow> fsnode"

text \<open>\<^verbatim>\<open>os.Lstat\<close> and \<^verbatim>\<open>os.Stat\<close>: the error, or \<^verbatim>\<open>fi.IsDir()\<close>.\<close>

definition os_Lstat :: "filesystem \<Rightarrow> string \<Rightarrow> error + bool" where
  "os_Lstat fs p =
     (case fs p of
        Absent \<Rightarrow> Inl (PathError ''lstat'' p ENOENT)
      | Unreadable \<Rightarrow> Inl (PathError ''lstat'' p EIO)
      | Directory \<Rightarrow> Inr True
      | NonDirectory \<Rightarrow> Inr False)"

definition os_Stat :: "filesystem \<Rightarrow> string \<Rightarrow> error + bool" where
  "os_Stat fs p =
     (case fs p of
        Absent \<Rightarrow> Inl (PathError ''stat'' p ENOENT)
      | Unreadable \<Rightarrow> Inl (PathError ''stat'' p EIO)
      | Directory \<Rightarrow> Inr True
      | NonDirectory \<Rightarrow> Inr False)"

text \<open>
  \<^verbatim>\<open>os.Rename\<close>, as rename(2) on the flat table: a missing source is ENOENT, a
  directory does not replace a non-directory (ENOTDIR) nor the reverse (EISDIR), and a
  directory replaces a directory only when that one is empty, which the table does not
  record, so that case is refused (ENOTEMPTY).
\<close>

definition os_Rename :: "filesystem \<Rightarrow> string \<Rightarrow> string \<Rightarrow> error + filesystem" where
  "os_Rename fs old new =
     (case fs old of
        Absent \<Rightarrow> Inl (LinkError ''rename'' old new ENOENT)
      | Unreadable \<Rightarrow> Inl (LinkError ''rename'' old new EIO)
      | Directory \<Rightarrow>
          (case fs new of
             Absent \<Rightarrow> Inr (fs(old := Absent, new := Directory))
           | NonDirectory \<Rightarrow> Inl (LinkError ''rename'' old new ENOTDIR)
           | Directory \<Rightarrow> Inl (LinkError ''rename'' old new ENOTEMPTY)
           | Unreadable \<Rightarrow> Inl (LinkError ''rename'' old new EIO))
      | NonDirectory \<Rightarrow>
          (case fs new of
             Absent \<Rightarrow> Inr (fs(old := Absent, new := NonDirectory))
           | NonDirectory \<Rightarrow> Inr (fs(old := Absent, new := NonDirectory))
           | Directory \<Rightarrow> Inl (LinkError ''rename'' old new EISDIR)
           | Unreadable \<Rightarrow> Inl (LinkError ''rename'' old new EIO)))"

text \<open>\<^verbatim>\<open>os.MkdirAll\<close>: nothing to do on a directory, ENOTDIR on anything else that exists.\<close>

definition os_MkdirAll :: "filesystem \<Rightarrow> string \<Rightarrow> error + filesystem" where
  "os_MkdirAll fs p =
     (case fs p of
        Directory \<Rightarrow> Inr fs
      | Absent \<Rightarrow> Inr (fs(p := Directory))
      | NonDirectory \<Rightarrow> Inl (PathError ''mkdir'' p ENOTDIR)
      | Unreadable \<Rightarrow> Inl (PathError ''mkdir'' p EIO))"

subsection \<open>Strings of the standard library\<close>

text \<open>\<^verbatim>\<open>strings.TrimSuffix\<close>.\<close>

definition TrimSuffix :: "string \<Rightarrow> string \<Rightarrow> string" where
  "TrimSuffix s suffix =
     (if length suffix \<le> length s \<and> drop (length s - length suffix) s = suffix
      then take (length s - length suffix) s else s)"

text \<open>\<^verbatim>\<open>fmt.Sprint\<close> of a \<^verbatim>\<open>uint16\<close>: its decimal digits, most significant first.\<close>

fun decimal :: "nat \<Rightarrow> string" where
  "decimal n =
     (if n < 10 then [char_of (48 + n)]
      else decimal (n div 10) @ [char_of (48 + n mod 10)])"

declare decimal.simps [simp del]

definition Sprint_uint16 :: "16 word \<Rightarrow> string" where
  "Sprint_uint16 port = decimal (unat port)"

text \<open>
  \<^verbatim>\<open>net.SplitHostPort\<close> of the Go standard library, which \<^verbatim>\<open>Listen\<close> calls. The
  methods below take the parser from the environment; this definition is the one the
  concrete runs use. \<open>IndexByte\<close> and \<open>LastIndexByte\<close> return -1 when the byte is absent.
\<close>

fun IndexByte :: "string \<Rightarrow> char \<Rightarrow> int" where
  "IndexByte [] c = -1"
| "IndexByte (x # xs) c =
     (if x = c then 0 else (let i = IndexByte xs c in if i < 0 then -1 else i + 1))"

fun LastIndexByte :: "string \<Rightarrow> char \<Rightarrow> int" where
  "LastIndexByte [] c = -1"
| "LastIndexByte (x # xs) c =
     (let i = LastIndexByte xs c in
      if 0 \<le> i then i + 1 else if x = c then 0 else -1)"

definition slice :: "string \<Rightarrow> int \<Rightarrow> int \<Rightarrow> string" where
  "slice s lo hi = take (nat hi - nat lo) (drop (nat lo) s)"

definition net_SplitHostPort :: "string \<Rightarrow> error + (string \<times> string)" where
  "net_SplitHostPort hostport =
     (let missingPort = ''missing port in address'';
          tooManyColons = ''too many colons in address'';
          len = int (length hostport);
          i = LastIndexByte hostport CHR '':'' in
      if i < 0 then Inl (AddrError missingPort hostport)
      else if hostport ! 0 = CHR ''['' then
        (let end = IndexByte hostport CHR '']'' in
         if end < 0 then Inl (AddrError ''missing ']' in address'' hostport)
         else if end + 1 = len then Inl (AddrError missingPort hostport)
         else if end + 1 \<noteq> i then
           (if hostport ! nat (end + 1) = CHR '':''
            then Inl (AddrError tooManyColons hostport)
            else Inl (AddrError missingPort hostport))
         else if 0 \<le> IndexByte (slice hostport 1 len) CHR ''[''
         then Inl (AddrError ''unexpected '[' in address'' hostport)
         else if 0 \<le> IndexByte (slice hostport (end + 1) len) CHR '']''
         then Inl (AddrError ''unexpected ']' in address'' hostport)
         else Inr (slice hostport 1 end, slice hostport (i + 1) len))
      else
        (let host = slice hostport 0 i in
         if 0 \<le> IndexByte host CHR '':'' then Inl (AddrError tooManyColons hostport)
         else if 0 \<le> IndexByte hostport CHR ''[''
         then Inl (AddrError ''unexpected '[' in address'' hostport)
         else if 0 \<le> IndexByte hostport CHR '']''
         then Inl (AddrError ''unexpected ']' in address'' hostport)
         else Inr (host, slice hostport (i + 1) len)))"

subsection \<open>Collaborators and environment\<close>

text \<open>
  Everything \<^verbatim>\<open>tsnet.go\<close> calls outside its own file is read from an environment: the
  results of the operating system queries, the pure string functions of the standard
  library, and whether each collaborator constructor succeeds (\<open>None\<close> is a nil error).
\<close>

text \<open>
  An \<^verbatim>\<open>ipn.StateStore\<close> by its dynamic type, which is all \<^verbatim>\<open>start\<close> asks of it:
  \<^verbatim>\<open>*mem.Store\<close>, a file store, or any other implementation.
\<close>

datatype StateStore = MemStore | FileStore string | OtherStore string

fun is_mem_Store :: "StateStore \<Rightarrow> bool" where
  "is_mem_Store MemStore = True"
| "is_mem_Store _ = False"

datatype ipn_State =
  NoState | InUseOtherUser | NeedsLogin | NeedsMachineAuth | Stopped | Starting | Running

fun State_String :: "ipn_State \<Rightarrow> string" where
  "State_String NoState = ''NoState''"
| "State_String InUseOtherUser = ''InUseOtherUser''"
| "State_String NeedsLogin = ''NeedsLogin''"
| "State_String NeedsMachineAuth = ''NeedsMachineAuth''"
| "State_String Stopped = ''Stopped''"
| "State_String Starting = ''Starting''"
| "State_String Running = ''Running''"

datatype LoginFlags = LoginDefault | LoginEphemeral

record env =
  os_Executable :: "error + string"
  os_UserConfigDir :: "error + string"
  os_Getenv_TS_AUTHKEY :: string
  envknob_TSNET_FORCE_LOGIN :: bool
  filepath_Base :: "string \<Rightarrow> string"
  filepath_Join :: "string \<Rightarrow> string \<Rightarrow> string"
  strings_ToLower :: "string \<Rightarrow> string"
  SplitHostPort :: "string \<Rightarrow> error + (string \<times> string)"
  monitor_New :: "error option"
  wgengine_NewUserspaceEngine :: "error option"
  GetInternals_ok :: bool
  netstack_Create :: "error option"
  netstack_Start :: "error option"
  store_New :: "string \<Rightarrow> error + StateStore"
  ipnlocal_NewLocalBackend :: "error option"
  lb_Start :: "error option"
  lb_State :: ipn_State
  tsdial_UserDial :: "string \<Rightarrow> string \<Rightarrow> error + nat"

subsection \<open>The server and its listeners\<close>

record listenKey =
  network :: string
  host :: string
  port :: string

datatype chan = Open | Closed

text \<open>
  A \<^verbatim>\<open>*listener\<close> is an index into the list of allocated listener objects; its \<^verbatim>\<open>s\<close>
  field is the one server of the state.
\<close>

type_synonym lid = nat
type_synonym netconn = nat

record listener =
  key :: listenKey
  addr :: string
  conn :: chan

datatype ctx = Active | Canceled
datatype Mon = Mon
datatype Dialer = Dialer
datatype LocalBackend = LocalBackend LoginFlags string

text \<open>
  What the server does to the world around it, in the order it does it. \<open>Logf\<close> is a
  line logged through \<^verbatim>\<open>s.logf\<close>, with its format and arguments, wherever the logger
  writes it. \<open>Go_printAuthURLLoop\<close> and \<open>Go_http_Serve\<close> are the starts of the two
  goroutines of \<^verbatim>\<open>start\<close>; what they do afterwards is not part of this state.
\<close>

datatype effect =
    Logf string "string list"
  | Call_Rename string string
  | Call_MkdirAll string
  | Call_monitor_New
  | Call_NewUserspaceEngine
  | Call_netstack_Create
  | Call_netstack_Start
  | Call_store_New string
  | Call_NewLocalBackend LoginFlags
  | Call_lb_Start string string
  | Call_StartLoginInteractive
  | Go_printAuthURLLoop
  | Call_nettest_Listen string
  | Go_http_Serve
  | Call_shutdownCancel
  | Call_lb_Shutdown
  | Call_linkMon_Close
  | Call_localAPIListener_Close
  | Chan_send lid netconn
  | Chan_close lid
  | Conn_Close netconn

text \<open>
  The fields of \<^verbatim>\<open>Server\<close> under their own names (a nil pointer, map or function is
  \<open>None\<close>; \<open>initOnce\<close> is whether the \<^verbatim>\<open>sync.Once\<close> has run; \<open>mu\<close> is whether the
  mutex is held; \<open>shutdownCtx\<close> stands for the context and its cancel function, which
  are set together), then the listener objects, the file system and the effects so far.
  The map \<^verbatim>\<open>listeners\<close> is an association list, so that it can be ranged over.
\<close>

record state =
  Dir :: string
  Store :: "StateStore option"
  Hostname :: string
  Ephemeral :: bool
  initOnce :: bool
  initErr :: "error option"
  lb :: "LocalBackend option"
  linkMon :: "Mon option"
  localAPIListener :: "string option"
  rootPath :: string
  hostname :: string
  shutdownCtx :: "ctx option"
  mu :: bool
  listeners :: "(listenKey \<times> lid) list option"
  dialer :: "Dialer option"
  heap :: "listener list"
  files :: filesystem
  trace :: "effect list"

text \<open>A zero \<^verbatim>\<open>Server\<close> with its exported fields set, on a given file system.\<close>

definition new_Server :: "string \<Rightarrow> StateStore option \<Rightarrow> string \<Rightarrow> bool \<Rightarrow> filesystem \<Rightarrow> state" where
  "new_Server d st h eph fs =
     \<lparr>Dir = d, Store = st, Hostname = h, Ephemeral = eph,
      initOnce = False, initErr = None, lb = None, linkMon = None,
      localAPIListener = None, rootPath = [], hostname = [], shutdownCtx = None,
      mu = False, listeners = None, dialer = None,
      heap = [], files = fs, trace = []\<rparr>"

definition emit :: "effect list \<Rightarrow> state \<Rightarrow> state" where
  "emit evs s = s\<lparr>trace := trace s @ evs\<rparr>"

text \<open>A lookup \<^verbatim>\<open>s.listeners[k]\<close>; on a nil map it finds nothing.\<close>

definition registry :: "state \<Rightarrow> listenKey \<Rightarrow> lid option" where
  "registry s = (case listeners s of None \<Rightarrow> Map.empty | Some al \<Rightarrow> map_of al)"

subsection \<open>Start\<close>

text \<open>\<^verbatim>\<open>getTSNetDir\<close>: the path, or the error; the rename changes the file system.\<close>

definition getTSNetDir :: "env \<Rightarrow> string \<Rightarrow> string \<Rightarrow> state \<Rightarrow> (error + string) \<times> state" where
  "getTSNetDir e confDir prog s =
     (let oldPath = filepath_Join e confDir (''tslib-'' @ prog);
          newPath = filepath_Join e confDir (''tsnet-'' @ prog) in
      case os_Lstat (files s) oldPath of
        Inl err \<Rightarrow> if IsNotExist err then (Inr newPath, s) else (Inl err, s)
      | Inr isDir \<Rightarrow>
          if \<not> isDir
          then (Inl (Errorf ''expected old tslib path %q to be a directory; got %v''
                       [S oldPath, S ''fi.Mode()'']), s)
          else
            (let r = os_Lstat (files s) newPath in
             if r = Inr True then (Inr newPath, s)
             else
               (case (case r of Inl err \<Rightarrow> if IsNotExist err then None else Some err
                              | Inr _ \<Rightarrow> None) of
                  Some err \<Rightarrow> (Inl err, s)
                | None \<Rightarrow>
                    (case os_Rename (files s) oldPath newPath of
                       Inl err \<Rightarrow> (Inl err, emit [Call_Rename oldPath newPath] s)
                     | Inr fs' \<Rightarrow>
                         (Inr newPath,
                          emit [Call_Rename oldPath newPath,
                                Logf ''renamed old tsnet state storage directory %q to %q''
                                  [oldPath, newPath]]
                            (s\<lparr>files := fs'\<rparr>))))))"

text \<open>
  \<^verbatim>\<open>start\<close> is a sequence of steps, each of which returns from \<^verbatim>\<open>start\<close> with its
  error (\<^verbatim>\<open>if err != nil { return err }\<close>) or goes on to the next.
\<close>

definition and_then ::
  "error option \<times> state \<Rightarrow> (state \<Rightarrow> error option \<times> state) \<Rightarrow> error option \<times> state" where
  "and_then r f = (case r of (Some err, s) \<Rightarrow> (Some err, s) | (None, s) \<Rightarrow> f s)"

text \<open>
  Lines 147 to 159: a state directory is chosen when none is configured.
  \<^verbatim>\<open>s.rootPath\<close> is assigned whatever \<^verbatim>\<open>getTSNetDir\<close> returns, the empty string
  with an error.
\<close>

definition start_confDir :: "env \<Rightarrow> string \<Rightarrow> state \<Rightarrow> error option \<times> state" where
  "start_confDir e prog s =
     (if rootPath s = [] then
        (case os_UserConfigDir e of
           Inl err \<Rightarrow> (Some err, s)
         | Inr confDir \<Rightarrow>
             (case getTSNetDir e confDir prog s of
                (Inl err, s') \<Rightarrow> (Some err, s'\<lparr>rootPath := []\<rparr>)
              | (Inr p, s') \<Rightarrow>
                  (case os_MkdirAll (files s') p of
                     Inl err \<Rightarrow> (Some err, emit [Call_MkdirAll p] (s'\<lparr>rootPath := p\<rparr>))
                   | Inr fs' \<Rightarrow>
                       (None, emit [Call_MkdirAll p] (s'\<lparr>rootPath := p, files := fs'\<rparr>)))))
      else (None, s))"

text \<open>Lines 160 to 164: the state directory must be a directory.\<close>

definition start_Stat :: "state \<Rightarrow> error option \<times> state" where
  "start_Stat s =
     (case os_Stat (files s) (rootPath s) of
        Inl err \<Rightarrow> (Some err, s)
      | Inr isDir \<Rightarrow>
          if \<not> isDir then (Some (Errorf ''%v is not a directory'' [S (rootPath s)]), s)
          else (None, s))"

text \<open>Lines 169 to 204: the link monitor, the engine and the network stack.\<close>

definition start_netstack :: "env \<Rightarrow> state \<Rightarrow> error option \<times> state" where
  "start_netstack e s =
     (case monitor_New e of
        Some err \<Rightarrow> (Some err, emit [Call_monitor_New] (s\<lparr>linkMon := None\<rparr>))
      | None \<Rightarrow>
          (let s1 = emit [Call_monitor_New, Call_NewUserspaceEngine]
                      (s\<lparr>linkMon := Some Mon, dialer := Some Dialer\<rparr>) in
           case wgengine_NewUserspaceEngine e of
             Some err \<Rightarrow> (Some err, s1)
           | None \<Rightarrow>
               if \<not> GetInternals_ok e
               then (Some (Errorf ''%T is not a wgengine.InternalsGetter'' [S ''eng'']), s1)
               else
                 (let s2 = emit [Call_netstack_Create] s1 in
                  case netstack_Create e of
                    Some err \<Rightarrow> (Some (Errorf ''netstack.Create: %w'' [E err]), s2)
                  | None \<Rightarrow>
                      (let s3 = emit [Call_netstack_Start] s2 in
                       case netstack_Start e of
                         Some err \<Rightarrow> (Some (Errorf ''failed to start netstack: %w'' [E err]), s3)
                       | None \<Rightarrow> (None, s3)))))"

text \<open>Lines 206 to 213: a file store in the state directory when no store is configured.\<close>

definition start_store :: "env \<Rightarrow> state \<Rightarrow> error option \<times> state" where
  "start_store e s =
     (if Store s = None then
        (let stateFile = filepath_Join e (rootPath s) ''tailscaled.state'';
             s' = emit [Logf ''tsnet running state path %s'' [stateFile],
                        Call_store_New stateFile] s in
         case store_New e stateFile of
           Inl err \<Rightarrow> (Some err, s')
         | Inr st \<Rightarrow> (None, s'\<lparr>Store := Some st\<rparr>))
      else (None, s))"

text \<open>Lines 214 to 241: the backend is made and started.\<close>

definition start_lb :: "env \<Rightarrow> state \<Rightarrow> error option \<times> state" where
  "start_lb e s =
     (let loginFlags = (if Ephemeral s then LoginEphemeral else LoginDefault);
          s1 = emit [Call_NewLocalBackend loginFlags] s in
      case ipnlocal_NewLocalBackend e of
        Some err \<Rightarrow> (Some (Errorf ''NewLocalBackend: %v'' [E err]), s1)
      | None \<Rightarrow>
          (let s2 = emit [Logf ''tsnet starting with hostname %q, varRoot %q''
                            [hostname s1, rootPath s1],
                          Call_lb_Start (hostname s1) (os_Getenv_TS_AUTHKEY e)]
                      (s1\<lparr>lb := Some (LocalBackend loginFlags (rootPath s1))\<rparr>) in
           case lb_Start e of
             Some err \<Rightarrow> (Some (Errorf ''starting backend: %w'' [E err]), s2)
           | None \<Rightarrow> (None, s2)))"

text \<open>Lines 242 to 269: the login, the login URL loop and the local API listener.\<close>

definition start_login :: "env \<Rightarrow> state \<Rightarrow> error option \<times> state" where
  "start_login e s =
     (let st = lb_State e;
          s1 = (if st = NeedsLogin \<or> envknob_TSNET_FORCE_LOGIN e
                then emit [Logf ''LocalBackend state is %v; running StartLoginInteractive...''
                             [State_String st],
                           Call_StartLoginInteractive] s
                else if os_Getenv_TS_AUTHKEY e \<noteq> []
                then emit [Logf ''TS_AUTHKEY is set; but state is %v. Ignoring authkey. Re-run with TSNET_FORCE_LOGIN=1 to force use of authkey.''
                             [State_String st]] s
                else s) in
      (None,
       emit [Go_printAuthURLLoop, Call_nettest_Listen ''local-tailscaled.sock:80'',
             Go_http_Serve]
         (s1\<lparr>localAPIListener := Some ''local-tailscaled.sock:80''\<rparr>)))"

text \<open>\<^verbatim>\<open>Server.start\<close>.\<close>

definition start :: "env \<Rightarrow> state \<Rightarrow> error option \<times> state" where
  "start e s =
     (case os_Executable e of
        Inl err \<Rightarrow> (Some err, s)
      | Inr exe \<Rightarrow>
          (let prog = TrimSuffix (strings_ToLower e (filepath_Base e exe)) ''.exe'';
               s1 = s\<lparr>hostname := (if Hostname s = [] then prog else Hostname s),
                      rootPath := Dir s\<rparr> in
           if (case Store s1 of
                 None \<Rightarrow> False
               | Some st \<Rightarrow> \<not> Ephemeral s1 \<and> \<not> is_mem_Store st)
           then (Some (Errorf ''in-memory store is only supported for Ephemeral nodes'' []), s1)
           else
             and_then (start_confDir e prog s1) (\<lambda>s2.
             and_then (start_Stat s2) (\<lambda>s3.
             and_then (start_netstack e s3) (\<lambda>s4.
             and_then (start_store e s4) (\<lambda>s5.
             and_then (start_lb e s5) (start_login e)))))))"

text \<open>\<^verbatim>\<open>Server.doInit\<close> and \<^verbatim>\<open>Server.Start\<close>; \<^verbatim>\<open>initOnce.Do\<close> runs its argument once.\<close>

definition doInit :: "env \<Rightarrow> state \<Rightarrow> state" where
  "doInit e s =
     (case start e (s\<lparr>shutdownCtx := Some Active\<rparr>) of
        (Some err, s') \<Rightarrow> s'\<lparr>initErr := Some (Errorf ''tsnet: %w'' [E err])\<rparr>
      | (None, s') \<Rightarrow> s')"

definition Start :: "env \<Rightarrow> state \<Rightarrow> error option \<times> state" where
  "Start e s =
     (let s' = (if initOnce s then s else (doInit e s)\<lparr>initOnce := True\<rparr>) in
      (initErr s', s'))"

text \<open>\<^verbatim>\<open>Server.Dial\<close>.\<close>

definition Dial :: "env \<Rightarrow> string \<Rightarrow> string \<Rightarrow> state \<Rightarrow> (error + netconn) \<times> state" where
  "Dial e netw address s =
     (case Start e s of
        (Some err, s1) \<Rightarrow> (Inl err, s1)
      | (None, s1) \<Rightarrow> (tsdial_UserDial e netw address, s1))"

subsection \<open>The mutex and the channel\<close>

text \<open>
  \<^verbatim>\<open>sync.Mutex\<close> is not reentrant: \<^verbatim>\<open>Lock\<close> on a mutex that is held waits for an
  \<^verbatim>\<open>Unlock\<close>. When the holder is the caller itself, nobody unlocks.
\<close>

definition Lock :: "state \<Rightarrow> fault + state" where
  "Lock s = (if mu s then Inl Deadlock else Inr (s\<lparr>mu := True\<rparr>))"

definition Unlock :: "state \<Rightarrow> state" where
  "Unlock s = s\<lparr>mu := False\<rparr>"

text \<open>A pointer stored by this file always points to an allocated listener.\<close>

definition deref :: "state \<Rightarrow> lid \<Rightarrow> fault + listener" where
  "deref s ln =
     (if ln < length (heap s) then Inr (heap s ! ln)
      else Inl (Panic ''invalid memory address or nil pointer dereference''))"

text \<open>
  A receive \<^verbatim>\<open>c, ok := <-ch\<close> on an unbuffered channel: on a closed channel it returns
  at once with \<^verbatim>\<open>ok\<close> false (\<open>None\<close>); on an open one it waits for a sender, here the
  connection that a sender offers, if any.
\<close>

datatype 'a blocking = Blocks | Returns 'a

fun recv :: "chan \<Rightarrow> netconn option \<Rightarrow> netconn option blocking" where
  "recv Closed offered = Returns None"
| "recv Open None = Blocks"
| "recv Open (Some c) = Returns (Some c)"

text \<open>
  The \<^verbatim>\<open>select\<close> of \<^verbatim>\<open>forwardTCP\<close>: a send on the channel against a timer of \<open>d\<close>
  nanoseconds. It runs after \<^verbatim>\<open>s.mu\<close> has been released, so other goroutines act while
  the sender waits. The environment says after how many nanoseconds an \<^verbatim>\<open>Accept\<close> is
  receiving (never, for \<open>None\<close>), after how many a \<^verbatim>\<open>Close\<close> of the listener runs in
  another goroutine (never, for \<open>None\<close>), and which one wins when two of these fall on
  the same instant.
\<close>

record rendezvous =
  accept_after :: "nat option"
  send_wins_tie :: bool
  close_after :: "nat option"
  close_wins_tie :: bool

datatype selected = SendCase | TimerCase

definition time_Second :: nat where
  "time_Second = 1000000000"

text \<open>
  On a channel that stays as it is: the result is the case taken and the time waited.
  A send on a closed channel panics.
\<close>

definition select_send_or_timer :: "chan \<Rightarrow> rendezvous \<Rightarrow> nat \<Rightarrow> fault + (selected \<times> nat)" where
  "select_send_or_timer ch w d =
     (case ch of
        Closed \<Rightarrow> Inl (Panic ''send on closed channel'')
      | Open \<Rightarrow>
          (case accept_after w of
             None \<Rightarrow> Inr (TimerCase, d)
           | Some t \<Rightarrow>
               if t < d \<or> (t = d \<and> send_wins_tie w) then Inr (SendCase, t)
               else Inr (TimerCase, d)))"

text \<open>
  Whether the \<^verbatim>\<open>Close\<close> of the other goroutine comes before the \<^verbatim>\<open>select\<close> on the open
  channel is over.
\<close>

definition closes_during_wait :: "rendezvous \<Rightarrow> nat \<Rightarrow> bool" where
  "closes_during_wait w d =
     (case close_after w of
        None \<Rightarrow> False
      | Some tc \<Rightarrow>
          (case select_send_or_timer Open w d of
             Inl f \<Rightarrow> False
           | Inr (sel, t) \<Rightarrow> tc < t \<or> (tc = t \<and> close_wins_tie w)))"

subsection \<open>Listen, Accept, Close and the dispatcher\<close>

text \<open>\<^verbatim>\<open>Server.Listen\<close>. The listener is allocated before the lock is taken.\<close>

definition Listen :: "env \<Rightarrow> string \<Rightarrow> string \<Rightarrow> state \<Rightarrow> fault + ((error + lid) \<times> state)" where
  "Listen e netw address s =
     (case SplitHostPort e address of
        Inl err \<Rightarrow> Inr (Inl (Errorf ''tsnet: %w'' [E err]), s)
      | Inr (h, p) \<Rightarrow>
          (case Start e s of
             (Some err, s1) \<Rightarrow> Inr (Inl err, s1)
           | (None, s1) \<Rightarrow>
               (let k = \<lparr>network = netw, host = h, port = p\<rparr>;
                    ln = length (heap s1);
                    s2 = s1\<lparr>heap := heap s1 @ [\<lparr>key = k, addr = address, conn = Open\<rparr>]\<rparr> in
                case Lock s2 of
                  Inl f \<Rightarrow> Inl f
                | Inr s3 \<Rightarrow>
                    (let s4 = (if listeners s3 = None then s3\<lparr>listeners := Some []\<rparr> else s3) in
                     case registry s4 k of
                       Some _ \<Rightarrow>
                         Inr (Inl (Errorf ''tsnet: listener already open for %s, %s''
                                     [S netw, S address]),
                              Unlock s4)
                     | None \<Rightarrow>
                         (case listeners s4 of
                            None \<Rightarrow> Inl (Panic ''assignment to entry in nil map'')
                          | Some al \<Rightarrow>
                              Inr (Inr ln,
                                   Unlock (s4\<lparr>listeners := Some (AList.update k ln al)\<rparr>)))))))"

text \<open>\<^verbatim>\<open>listener.Accept\<close>, on the listener object.\<close>

definition listener_Accept :: "listener \<Rightarrow> netconn option \<Rightarrow> (error + netconn) blocking" where
  "listener_Accept l offered =
     (case recv (conn l) offered of
        Blocks \<Rightarrow> Blocks
      | Returns None \<Rightarrow> Returns (Inl (Errorf ''tsnet: %w'' [E ErrClosed]))
      | Returns (Some c) \<Rightarrow> Returns (Inr c))"

text \<open>\<^verbatim>\<open>listener.Close\<close>. Closing a closed channel panics.\<close>

definition listener_Close :: "lid \<Rightarrow> state \<Rightarrow> fault + (error option \<times> state)" where
  "listener_Close ln s =
     (case deref s ln of
        Inl f \<Rightarrow> Inl f
      | Inr l \<Rightarrow>
          (case Lock s of
             Inl f \<Rightarrow> Inl f
           | Inr s1 \<Rightarrow>
               if registry s1 (key l) = Some ln then
                 (case conn l of
                    Closed \<Rightarrow> Inl (Panic ''close of closed channel'')
                  | Open \<Rightarrow>
                      Inr (None,
                           Unlock (emit [Chan_close ln]
                             (s1\<lparr>listeners := map_option (AList.delete (key l)) (listeners s1),
                                 heap := (heap s1)[ln := l\<lparr>conn := Closed\<rparr>]\<rparr>))))
               else Inr (None, Unlock s1)))"

text \<open>
  \<^verbatim>\<open>Server.forwardTCP\<close>, in its two parts: the lookup under \<^verbatim>\<open>s.mu\<close>, and the
  \<^verbatim>\<open>select\<close> on the channel of the listener found, which reads the channel as it is by
  then. Between the two the mutex is free: when the environment has a \<^verbatim>\<open>Close\<close> of that
  listener run during the wait, the \<^verbatim>\<open>select\<close> meets the state that this \<^verbatim>\<open>Close\<close> leaves.
\<close>

definition forwardTCP_lookup :: "16 word \<Rightarrow> state \<Rightarrow> fault + (lid option \<times> state)" where
  "forwardTCP_lookup prt s =
     (case Lock s of
        Inl f \<Rightarrow> Inl f
      | Inr s1 \<Rightarrow>
          Inr (registry s1 \<lparr>network = ''tcp'', host = [], port = Sprint_uint16 prt\<rparr>,
               Unlock s1))"

definition forwardTCP_select :: "netconn \<Rightarrow> lid \<Rightarrow> rendezvous \<Rightarrow> state \<Rightarrow> fault + state" where
  "forwardTCP_select c ln w s =
     (case deref s ln of
        Inl f \<Rightarrow> Inl f
      | Inr l \<Rightarrow>
          (case select_send_or_timer (conn l) w time_Second of
             Inl f \<Rightarrow> Inl f
           | Inr (SendCase, t) \<Rightarrow> Inr (emit [Chan_send ln c] s)
           | Inr (TimerCase, t) \<Rightarrow> Inr (emit [Conn_Close c] s)))"

definition forwardTCP :: "netconn \<Rightarrow> 16 word \<Rightarrow> rendezvous \<Rightarrow> state \<Rightarrow> fault + state" where
  "forwardTCP c prt w s =
     (case forwardTCP_lookup prt s of
        Inl f \<Rightarrow> Inl f
      | Inr (None, s2) \<Rightarrow> Inr (emit [Conn_Close c] s2)
      | Inr (Some ln, s2) \<Rightarrow>
          if closes_during_wait w time_Second then
            (case listener_Close ln s2 of
               Inl f \<Rightarrow> Inl f
             | Inr (r, s3) \<Rightarrow> forwardTCP_select c ln w s3)
          else forwardTCP_select c ln w s2)"

text \<open>
  \<^verbatim>\<open>Server.Close\<close>. The cancel function is nil before \<^verbatim>\<open>doInit\<close>; the backend, the
  monitor and the local listener are nil unless \<^verbatim>\<open>start\<close> got that far, and a call
  through them panics. The loop calls \<^verbatim>\<open>ln.Close()\<close> for every entry of the map, with
  \<^verbatim>\<open>s.mu\<close> held. Go ranges over a map in no fixed order; the order of the list is one
  such order.
\<close>

fun close_all :: "lid list \<Rightarrow> state \<Rightarrow> fault + state" where
  "close_all [] s = Inr s"
| "close_all (ln # lns) s =
     (case listener_Close ln s of
        Inl f \<Rightarrow> Inl f
      | Inr (_, s') \<Rightarrow> close_all lns s')"

definition Close :: "state \<Rightarrow> fault + (error option \<times> state)" where
  "Close s =
     (case shutdownCtx s of
        None \<Rightarrow> Inl (Panic ''invalid memory address or nil pointer dereference'')
      | Some _ \<Rightarrow>
          (let s1 = emit [Call_shutdownCancel] (s\<lparr>shutdownCtx := Some Canceled\<rparr>) in
           if lb s1 = None \<or> linkMon s1 = None \<or> localAPIListener s1 = None
           then Inl (Panic ''invalid memory address or nil pointer dereference'')
           else
             (let s2 = emit [Call_lb_Shutdown, Call_linkMon_Close,
                             Call_localAPIListener_Close] s1 in
              case Lock s2 of
                Inl f \<Rightarrow> Inl f
              | Inr s3 \<Rightarrow>
                  (case close_all (map snd (case listeners s3 of None \<Rightarrow> [] | Some al \<Rightarrow> al)) s3 of
                     Inl f \<Rightarrow> Inl f
                   | Inr s4 \<Rightarrow> Inr (None, Unlock (s4\<lparr>listeners := None\<rparr>))))))"

subsection \<open>Runs\<close>

text \<open>
  A run is a sequence of calls made one after the other on one server; the one call
  that overlaps another is the \<^verbatim>\<open>Close\<close> that the environment of a dispatch lets run
  during its wait. A run stops at the first call that does not return.
\<close>

datatype call =
    DoStart
  | DoDial string string
  | DoListen string string
  | DoListenerClose lid
  | DoForwardTCP netconn "16 word" rendezvous
  | DoClose

fun exec :: "env \<Rightarrow> call \<Rightarrow> state \<Rightarrow> fault + state" where
  "exec e DoStart s = Inr (snd (Start e s))"
| "exec e (DoDial netw address) s = Inr (snd (Dial e netw address s))"
| "exec e (DoListen netw address) s = map_sum id snd (Listen e netw address s)"
| "exec e (DoListenerClose ln) s = map_sum id snd (listener_Close ln s)"
| "exec e (DoForwardTCP c prt w) s = forwardTCP c prt w s"
| "exec e DoClose s = map_sum id snd (Close s)"

fun run :: "env \<Rightarrow> call list \<Rightarrow> state \<Rightarrow> fault + state" where
  "run e [] s = Inr s"
| "run e (c # cs) s = (case exec e c s of Inl f \<Rightarrow> Inl f | Inr s' \<Rightarrow> run e cs s')"

text \<open>\<^verbatim>\<open>n\<close> calls of \<^verbatim>\<open>Start\<close> in a row, with what each returned.\<close>

fun Starts :: "env \<Rightarrow> nat \<Rightarrow> state \<Rightarrow> error option list \<times> state" where
  "Starts e 0 s = ([], s)"
| "Starts e (Suc n) s =
     (case Start e s of (r, s1) \<Rightarrow> (case Starts e n s1 of (rs, s2) \<Rightarrow> (r # rs, s2)))"

subsection \<open>Well-formed states\<close>

text \<open>
  The listener an effect on a channel is about, and the channel effects of a trace.
\<close>

fun chan_lid :: "effect \<Rightarrow> lid option" where
  "chan_lid (Chan_send ln c) = Some ln"
| "chan_lid (Chan_close ln) = Some ln"
| "chan_lid _ = None"

definition chan_events :: "effect list \<Rightarrow> effect list" where
  "chan_events tr = filter (\<lambda>ev. chan_lid ev \<noteq> None) tr"

definition entries :: "state \<Rightarrow> (listenKey \<times> lid) list" where
  "entries s = (case listeners s of None \<Rightarrow> [] | Some al \<Rightarrow> al)"

text \<open>
  Between two calls the mutex is free, every entry of the map points to an allocated
  listener that carries the entry's key and whose channel is open, the channel effects
  are about allocated listeners, and a channel has been closed once if it is closed and
  never if it is open.
\<close>

definition wellformed :: "state \<Rightarrow> bool" where
  "wellformed s =
     (\<not> mu s \<and>
      (\<forall>(k, ln) \<in> set (entries s).
         ln < length (heap s) \<and> key (heap s ! ln) = k \<and> conn (heap s ! ln) = Open) \<and>
      (\<forall>ev \<in> set (chan_events (trace s)).
         case chan_lid ev of None \<Rightarrow> True | Some ln \<Rightarrow> ln < length (heap s)) \<and>
      (\<forall>ln \<in> set [0..<length (heap s)].
         count_list (chan_events (trace s)) (Chan_close ln) =
           (if conn (heap s ! ln) = Closed then 1 else 0)))"

text \<open>What \<^verbatim>\<open>start\<close> leaves alone.\<close>

definition frame :: "state \<Rightarrow> state \<Rightarrow> bool" where
  "frame s s' =
     (initOnce s' = initOnce s \<and> initErr s' = initErr s \<and>
      shutdownCtx s' = shutdownCtx s \<and> mu s' = mu s \<and>
      listeners s' = listeners s \<and> heap s' = heap s \<and>
      chan_events (trace s') = chan_events (trace s))"

text \<open>The key under which \<^verbatim>\<open>forwardTCP\<close> looks a port up.\<close>

definition dispatch_key :: "16 word \<Rightarrow> listenKey" where
  "dispatch_key prt = \<lparr>network = ''tcp'', host = [], port = Sprint_uint16 prt\<rparr>"

text \<open>
  Every listener was made by a \<^verbatim>\<open>Listen\<close> whose address splits into the host and
  port of its key, after a \<^verbatim>\<open>Start\<close> that succeeded.
\<close>

definition origin :: "env \<Rightarrow> state \<Rightarrow> bool" where
  "origin e s =
     ((\<forall>ln \<in> set [0..<length (heap s)].
         SplitHostPort e (addr (heap s ! ln)) =
           Inr (host (key (heap s ! ln)), port (key (heap s ! ln)))) \<and>
      (heap s = [] \<or> (initOnce s \<and> initErr s = None)))"

text \<open>Every connection sent on a channel went to a listener whose key is a dispatch key.\<close>

definition deliveries_ok :: "state \<Rightarrow> bool" where
  "deliveries_ok s =
     (\<forall>ev \<in> set (trace s).
        case ev of
          Chan_send ln c \<Rightarrow>
            ln < length (heap s) \<and> (\<exists>prt. key (heap s ! ln) = dispatch_key prt)
        | _ \<Rightarrow> True)"

text \<open>
  From one state to a later one the allocated listeners stay, with their key and
  address, and a closed channel stays closed.
\<close>

definition grows :: "state \<Rightarrow> state \<Rightarrow> bool" where
  "grows s s' =
     (\<forall>ln \<in> set [0..<length (heap s)].
        ln < length (heap s') \<and> key (heap s' ! ln) = key (heap s ! ln) \<and>
        addr (heap s' ! ln) = addr (heap s ! ln) \<and>
        (conn (heap s ! ln) = Closed \<longrightarrow> conn (heap s' ! ln) = Closed))"

text \<open>The renames of a trace, and what the steps of \<^verbatim>\<open>start\<close> after line 159 leave alone.\<close>

fun is_Rename :: "effect \<Rightarrow> bool" where
  "is_Rename (Call_Rename old new) = True"
| "is_Rename _ = False"

definition renames :: "effect list \<Rightarrow> effect list" where
  "renames tr = filter is_Rename tr"

definition settled :: "state \<Rightarrow> state \<Rightarrow> bool" where
  "settled s s' =
     (files s' = files s \<and> rootPath s' = rootPath s \<and>
      renames (trace s') = renames (trace s))"

subsection \<open>A concrete environment\<close>

text \<open>
  \<^verbatim>\<open>filepath.Base\<close> on Unix, \<^verbatim>\<open>strings.ToLower\<close> on ASCII, and \<^verbatim>\<open>filepath.Join\<close> of
  a clean directory and a plain name.
\<close>

definition unix_Base :: "string \<Rightarrow> string" where
  "unix_Base p =
     (if p = [] then ''.''
      else
        (let q = rev (dropWhile (\<lambda>c. c = CHR ''/'') (rev p));
             b = rev (takeWhile (\<lambda>c. c \<noteq> CHR ''/'') (rev q)) in
         if b = [] then ''/'' else b))"

definition ascii_ToLower :: "string \<Rightarrow> string" where
  "ascii_ToLower p =
     map (\<lambda>c. let n = (of_char c :: nat) in if 65 \<le> n \<and> n \<le> 90 then char_of (n + 32) else c) p"

definition clean_Join :: "string \<Rightarrow> string \<Rightarrow> string" where
  "clean_Join a b = a @ ''/'' @ b"

text \<open>
  An executable \<^verbatim>\<open>/usr/bin/App\<close>, the configuration directory \<^verbatim>\<open>/cfg\<close>, every
  collaborator succeeds and the backend needs a login.
\<close>

definition env0 :: env where
  "env0 =
     \<lparr>os_Executable = Inr ''/usr/bin/App'',
      os_UserConfigDir = Inr ''/cfg'',
      os_Getenv_TS_AUTHKEY = [],
      envknob_TSNET_FORCE_LOGIN = False,
      filepath_Base = unix_Base,
      filepath_Join = clean_Join,
      strings_ToLower = ascii_ToLower,
      SplitHostPort = net_SplitHostPort,
      monitor_New = None,
      wgengine_NewUserspaceEngine = None,
      GetInternals_ok = True,
      netstack_Create = None,
      netstack_Start = None,
      store_New = (\<lambda>p. Inr (FileStore p)),
      ipnlocal_NewLocalBackend = None,
      lb_Start = None,
      lb_State = NeedsLogin,
      tsdial_UserDial = (\<lambda>netw address. Inr 0)\<rparr>"

text \<open>A fresh server with nothing configured, on an empty file system.\<close>

definition server0 :: state where
  "server0 = new_Server [] None [] False (\<lambda>p. Absent)"

text \<open>The server after \<^verbatim>\<open>Listen("tcp", ":80")\<close> on the fresh server.\<close>

definition server1 :: state where
  "server1 = (case Listen env0 ''tcp'' '':80'' server0 of Inr (_, s) \<Rightarrow> s | Inl _ \<Rightarrow> server0)"

text \<open>
  Two environments of a dispatch in which no \<^verbatim>\<open>Accept\<close> is receiving: in the first
  another goroutine closes the listener five nanoseconds into the wait, in the second
  nothing happens.
\<close>

definition wait_closed :: rendezvous where
  "wait_closed =
     \<lparr>accept_after = None, send_wins_tie = False, close_after = Some 5, close_wins_tie = False\<rparr>"

definition wait_quiet :: rendezvous where
  "wait_quiet =
     \<lparr>accept_after = None, send_wins_tie = False, close_after = None, close_wins_tie = False\<rparr>"

text \<open>
  The server after a listener on \<^verbatim>\<open>:80\<close> has been opened, closed and opened again:
  the first listener is closed and the second holds the key.
\<close>

definition calls3 :: "call list" where
  "calls3 = [DoListen ''tcp'' '':80'', DoListenerClose 0, DoListen ''tcp'' '':80'']"

definition server3 :: state where
  "server3 = (case run env0 calls3 server0 of Inr s \<Rightarrow> s | Inl _ \<Rightarrow> server0)"

text \<open>
  A file system with only the old state directory of \<^verbatim>\<open>app\<close>, and one with both.
\<close>

definition fs_old :: filesystem where
  "fs_old = (\<lambda>p. Absent)(''/cfg/tslib-app'' := Directory)"

definition fs_both :: filesystem where
  "fs_both = (\<lambda>p. Absent)(''/cfg/tslib-app'' := Directory, ''/cfg/tsnet-app'' := Directory)"

section \<open>Properties\<close>

subsection \<open>Start runs the initialization once\<close>

lemma Starts_latched: "initOnce s \<Longrightarrow> Starts e n s = (replicate n (initErr s), s)"
  by (induction n) (simp_all add: Start_def)

lemma initOnce_Start: "initOnce (snd (Start e s))"
  by (simp add: Start_def Let_def)

lemma fst_Start: "fst (Start e s) = initErr (snd (Start e s))"
  by (simp add: Start_def Let_def)


subsection \<open>What start leaves alone\<close>

lemma frame_refl: "frame s s"
  by (simp add: frame_def)

lemma frame_trans: "frame s s1 \<Longrightarrow> frame s1 s2 \<Longrightarrow> frame s s2"
  by (simp add: frame_def)

lemma frame_and_then:
  "frame s (snd r) \<Longrightarrow> (\<And>s1. frame s1 (snd (f s1))) \<Longrightarrow> frame s (snd (and_then r f))"
  by (cases r) (auto simp: and_then_def split: option.splits intro: frame_trans)

lemma frame_getTSNetDir: "frame s (snd (getTSNetDir e confDir prog s))"
  by (simp add: getTSNetDir_def Let_def emit_def chan_events_def frame_def
      split: sum.splits option.splits)

lemma frame_start_confDir: "frame s (snd (start_confDir e prog s))"
proof (cases "rootPath s = []")
  case False
  then show ?thesis by (simp add: start_confDir_def frame_refl)
next
  case True
  show ?thesis
  proof (cases "os_UserConfigDir e")
    case (Inl err)
    then show ?thesis using True by (simp add: start_confDir_def frame_refl)
  next
    case (Inr confDir)
    obtain r s' where g: "getTSNetDir e confDir prog s = (r, s')" by force
    have f: "frame s s'" using frame_getTSNetDir [of s e confDir prog] g by simp
    show ?thesis
      using True Inr g f
      by (cases r; cases "os_MkdirAll (files s') (projr r)")
         (simp_all add: start_confDir_def frame_def emit_def chan_events_def)
  qed
qed

lemma frame_start_Stat: "frame s (snd (start_Stat s))"
  by (simp add: start_Stat_def frame_refl split: sum.splits)

lemma frame_start_netstack: "frame s (snd (start_netstack e s))"
  by (simp add: start_netstack_def Let_def emit_def chan_events_def frame_def
      split: option.splits)

lemma frame_start_store: "frame s (snd (start_store e s))"
  by (simp add: start_store_def Let_def emit_def chan_events_def frame_def
      split: sum.splits)

lemma frame_start_lb: "frame s (snd (start_lb e s))"
  by (simp add: start_lb_def Let_def emit_def chan_events_def frame_def
      split: option.splits)

lemma frame_start_login: "frame s (snd (start_login e s))"
  by (simp add: start_login_def Let_def emit_def chan_events_def frame_def)

lemma frame_start: "frame s (snd (start e s))"
proof (cases "os_Executable e")
  case (Inl err)
  then show ?thesis by (simp add: start_def frame_refl)
next
  case (Inr exe)
  define prog where "prog = TrimSuffix (strings_ToLower e (filepath_Base e exe)) ''.exe''"
  define s1 where
    "s1 = s\<lparr>hostname := (if Hostname s = [] then prog else Hostname s), rootPath := Dir s\<rparr>"
  have f1: "frame s s1" by (simp add: s1_def frame_def)
  have rest: "frame s1 (snd (and_then (start_confDir e prog s1) (\<lambda>s2.
             and_then (start_Stat s2) (\<lambda>s3.
             and_then (start_netstack e s3) (\<lambda>s4.
             and_then (start_store e s4) (\<lambda>s5.
             and_then (start_lb e s5) (start_login e)))))))"
    by (intro frame_and_then frame_start_confDir frame_start_Stat frame_start_netstack
        frame_start_store frame_start_lb frame_start_login)
  show ?thesis
    unfolding start_def Inr sum.case Let_def prog_def [symmetric] s1_def [symmetric]
    using f1 rest by (auto intro: frame_trans)
qed



subsection \<open>The store policy\<close>

text \<open>
  With a store configured and \<^verbatim>\<open>Ephemeral\<close> false, \<^verbatim>\<open>start\<close> stops at the check for
  every store that is not a \<^verbatim>\<open>mem.Store\<close>, and goes on to the state directory for a
  \<^verbatim>\<open>mem.Store\<close>.
\<close>

lemma start_refuses_other_stores:
  assumes "os_Executable e = Inr exe" "Store s = Some x" "\<not> Ephemeral s" "\<not> is_mem_Store x"
  shows "fst (start e s) = Some (Errorf ''in-memory store is only supported for Ephemeral nodes'' []) \<and>
         trace (snd (start e s)) = trace s \<and> files (snd (start e s)) = files s"
  using assms by (simp add: start_def Let_def)

lemma start_passes_mem_Store:
  assumes "os_Executable e = Inr exe" "Store s = Some x" "is_mem_Store x"
  shows "start e s =
     (let prog = TrimSuffix (strings_ToLower e (filepath_Base e exe)) ''.exe'';
          s1 = s\<lparr>hostname := (if Hostname s = [] then prog else Hostname s), rootPath := Dir s\<rparr> in
      and_then (start_confDir e prog s1) (\<lambda>s2.
      and_then (start_Stat s2) (\<lambda>s3.
      and_then (start_netstack e s3) (\<lambda>s4.
      and_then (start_store e s4) (\<lambda>s5.
      and_then (start_lb e s5) (start_login e))))))"
  using assms by (simp add: start_def Let_def)

text \<open>
  Claim C1. The claim is that a server that is not \<^verbatim>\<open>Ephemeral\<close> and is given an
  in-memory store fails to start, before the link monitor is made. The check in
  \<^verbatim>\<open>start\<close> is the other way round: with \<^verbatim>\<open>mem.Store\<close> and \<^verbatim>\<open>Ephemeral\<close> false,
  \<^verbatim>\<open>Start\<close> returns nil and has made the link monitor, the engine and the network
  stack, and it is a file store that is refused, before anything is made, with the error
  that says that in-memory stores are only supported for ephemeral nodes.
\<close>

theorem start_accepts_mem_Store_when_not_Ephemeral:
  "fst (Start env0 (new_Server [] (Some MemStore) [] False (\<lambda>p. Absent))) = None \<and>
   Call_monitor_New \<in> set (trace (snd (Start env0
      (new_Server [] (Some MemStore) [] False (\<lambda>p. Absent))))) \<and>
   Call_NewUserspaceEngine \<in> set (trace (snd (Start env0
      (new_Server [] (Some MemStore) [] False (\<lambda>p. Absent))))) \<and>
   Call_netstack_Create \<in> set (trace (snd (Start env0
      (new_Server [] (Some MemStore) [] False (\<lambda>p. Absent))))) \<and>
   fst (Start env0 (new_Server [] (Some (FileStore ''/var/lib/app/state'')) [] False
      (\<lambda>p. Absent))) =
     Some (Errorf ''tsnet: %w''
       [E (Errorf ''in-memory store is only supported for Ephemeral nodes'' [])]) \<and>
   trace (snd (Start env0 (new_Server [] (Some (FileStore ''/var/lib/app/state'')) [] False
      (\<lambda>p. Absent)))) = []"
  by code_simp

subsection \<open>Well-formed states are kept\<close>

lemma mu_False_id: "\<not> mu s \<Longrightarrow> s\<lparr>mu := False\<rparr> = s"
  by (cases s) simp

lemma Lock_free: "\<not> mu s \<Longrightarrow> Lock s = Inr (s\<lparr>mu := True\<rparr>)"
  by (simp add: Lock_def)

lemma Lock_held: "mu s \<Longrightarrow> Lock s = Inl Deadlock"
  by (simp add: Lock_def)

lemma in_chan_events: "ev \<in> set (chan_events tr) \<longleftrightarrow> ev \<in> set tr \<and> chan_lid ev \<noteq> None"
  by (simp add: chan_events_def)

lemma count_chan_events:
  "count_list (chan_events tr) (Chan_close ln) = count_list tr (Chan_close ln)"
  by (induction tr) (simp_all add: chan_events_def)

lemma registry_entries: "registry s k = Some ln \<Longrightarrow> (k, ln) \<in> set (entries s)"
  by (auto simp: registry_def entries_def split: option.splits dest: map_of_SomeD)

lemma wfI:
  assumes "\<not> mu s"
    and "\<And>k ln. (k, ln) \<in> set (entries s) \<Longrightarrow>
           ln < length (heap s) \<and> key (heap s ! ln) = k \<and> conn (heap s ! ln) = Open"
    and "\<And>ev ln. ev \<in> set (chan_events (trace s)) \<Longrightarrow> chan_lid ev = Some ln \<Longrightarrow>
           ln < length (heap s)"
    and "\<And>ln. ln < length (heap s) \<Longrightarrow>
           count_list (chan_events (trace s)) (Chan_close ln) =
             (if conn (heap s ! ln) = Closed then 1 else 0)"
  shows "wellformed s"
  unfolding wellformed_def using assms by (auto split: option.splits)

lemma wf_mu: "wellformed s \<Longrightarrow> \<not> mu s"
  by (simp add: wellformed_def)

lemma wf_entry:
  "wellformed s \<Longrightarrow> (k, ln) \<in> set (entries s) \<Longrightarrow>
   ln < length (heap s) \<and> key (heap s ! ln) = k \<and> conn (heap s ! ln) = Open"
  by (auto simp: wellformed_def)

lemma wf_registry:
  "wellformed s \<Longrightarrow> registry s k = Some ln \<Longrightarrow>
   ln < length (heap s) \<and> key (heap s ! ln) = k \<and> conn (heap s ! ln) = Open"
  using wf_entry registry_entries by blast

lemma wf_chan_lid:
  "wellformed s \<Longrightarrow> ev \<in> set (chan_events (trace s)) \<Longrightarrow> chan_lid ev = Some ln \<Longrightarrow>
   ln < length (heap s)"
  by (force simp: wellformed_def)

lemma wf_closes:
  "wellformed s \<Longrightarrow> ln < length (heap s) \<Longrightarrow>
   count_list (chan_events (trace s)) (Chan_close ln) =
     (if conn (heap s ! ln) = Closed then 1 else 0)"
  by (simp add: wellformed_def)

lemma wf_cong:
  assumes "mu s' = mu s" "listeners s' = listeners s" "heap s' = heap s"
    "chan_events (trace s') = chan_events (trace s)"
  shows "wellformed s' = wellformed s"
  by (simp add: wellformed_def entries_def assms cong: option.case_cong)

lemma wf_frame: "frame s s' \<Longrightarrow> wellformed s' = wellformed s"
  by (rule wf_cong) (simp_all add: frame_def)

lemma wf_new_Server: "wellformed (new_Server d st h eph fs)"
  by (simp add: wellformed_def new_Server_def entries_def chan_events_def)

lemma Start_keeps:
  "mu (snd (Start e s)) = mu s \<and> listeners (snd (Start e s)) = listeners s \<and>
   heap (snd (Start e s)) = heap s \<and>
   chan_events (trace (snd (Start e s))) = chan_events (trace s)"
proof (cases "initOnce s")
  case True
  then show ?thesis by (simp add: Start_def)
next
  case False
  obtain r s' where st: "start e (s\<lparr>shutdownCtx := Some Active\<rparr>) = (r, s')" by force
  have "frame (s\<lparr>shutdownCtx := Some Active\<rparr>) s'"
    using frame_start [of "s\<lparr>shutdownCtx := Some Active\<rparr>" e] st by simp
  then show ?thesis
    using False by (cases r) (simp_all add: Start_def doInit_def st frame_def)
qed

lemma wf_Start: "wellformed (snd (Start e s)) = wellformed s"
  using Start_keeps [of e s] by (intro wf_cong) simp_all

lemma registry_Start: "registry (snd (Start e s)) = registry s"
  using Start_keeps [of e s] by (simp add: registry_def)

lemma listener_Close_noop:
  assumes "ln < length (heap s)" "\<not> mu s" "registry s (key (heap s ! ln)) \<noteq> Some ln"
  shows "listener_Close ln s = Inr (None, s)"
  using assms
  by (simp add: listener_Close_def deref_def Lock_def Unlock_def registry_def mu_False_id)

lemma listener_Close_effective:
  assumes "ln < length (heap s)" "\<not> mu s" "registry s (key (heap s ! ln)) = Some ln"
    "conn (heap s ! ln) = Open"
  shows "listener_Close ln s =
     Inr (None,
          s\<lparr>listeners := map_option (AList.delete (key (heap s ! ln))) (listeners s),
            heap := (heap s)[ln := (heap s ! ln)\<lparr>conn := Closed\<rparr>],
            trace := trace s @ [Chan_close ln]\<rparr>)"
  using assms
  by (simp add: listener_Close_def deref_def Lock_def Unlock_def registry_def emit_def)

lemma listener_Close_locked:
  "mu s \<Longrightarrow> listener_Close ln s = Inl Deadlock \<or>
     listener_Close ln s = Inl (Panic ''invalid memory address or nil pointer dereference'')"
  by (simp add: listener_Close_def deref_def Lock_def)

lemma listener_Close_nil: "listener_Close ln s = Inr (r, s') \<Longrightarrow> r = None"
  by (auto simp: listener_Close_def split: sum.splits if_splits chan.splits)

lemma close_all_locked:
  "mu s \<Longrightarrow> lns \<noteq> [] \<Longrightarrow> close_all lns s = Inl Deadlock \<or>
     close_all lns s = Inl (Panic ''invalid memory address or nil pointer dereference'')"
  using listener_Close_locked [of s "hd lns"] by (cases lns) auto

lemma set_AList_delete: "set (AList.delete k al) = {x \<in> set al. fst x \<noteq> k}"
  by (induction al) auto

lemma set_AList_update: "set (AList.update k v al) \<subseteq> insert (k, v) (set al)"
  by (induction al) auto

lemma chan_events_snoc_close:
  "chan_events (tr @ [Chan_close ln]) = chan_events tr @ [Chan_close ln]"
  by (simp add: chan_events_def)

lemma chan_events_snoc_send:
  "chan_events (tr @ [Chan_send ln c]) = chan_events tr @ [Chan_send ln c]"
  by (simp add: chan_events_def)

lemma chan_events_snoc_Conn: "chan_events (tr @ [Conn_Close c]) = chan_events tr"
  by (simp add: chan_events_def)

lemma wf_listener_Close:
  assumes w: "wellformed s" and c: "listener_Close ln s = Inr (r, s')"
  shows "wellformed s'"
proof -
  have valid: "ln < length (heap s)"
    using c by (auto simp: listener_Close_def deref_def split: if_splits)
  let ?l = "heap s ! ln"
  show ?thesis
  proof (cases "registry s (key ?l) = Some ln")
    case False
    then have "s' = s"
      using listener_Close_noop [OF valid wf_mu [OF w]] c by simp
    then show ?thesis using w by simp
  next
    case True
    have op: "conn ?l = Open" using wf_registry [OF w True] by simp
    have s': "s' = s\<lparr>listeners := map_option (AList.delete (key ?l)) (listeners s),
            heap := (heap s)[ln := ?l\<lparr>conn := Closed\<rparr>],
            trace := trace s @ [Chan_close ln]\<rparr>"
      using listener_Close_effective [OF valid wf_mu [OF w] True op] c by simp
    have ent: "set (entries s') = {x \<in> set (entries s). fst x \<noteq> key ?l}"
      by (cases "listeners s") (simp_all add: s' entries_def set_AList_delete)
    show ?thesis
    proof (rule wfI)
      show "\<not> mu s'" using wf_mu [OF w] by (simp add: s')
    next
      fix k ln' assume "(k, ln') \<in> set (entries s')"
      then have in_s: "(k, ln') \<in> set (entries s)" and ne: "k \<noteq> key ?l"
        by (simp_all add: ent)
      have e: "ln' < length (heap s) \<and> key (heap s ! ln') = k \<and> conn (heap s ! ln') = Open"
        using wf_entry [OF w in_s] .
      then have "ln' \<noteq> ln" using ne by auto
      then show "ln' < length (heap s') \<and> key (heap s' ! ln') = k \<and> conn (heap s' ! ln') = Open"
        using e by (simp add: s')
    next
      fix ev ln' assume "ev \<in> set (chan_events (trace s'))" "chan_lid ev = Some ln'"
      then have "ev \<in> set (chan_events (trace s)) \<or> ln' = ln"
        by (auto simp: s' chan_events_snoc_close)
      then show "ln' < length (heap s')"
        using wf_chan_lid [OF w _ \<open>chan_lid ev = Some ln'\<close>] valid by (auto simp: s')
    next
      fix ln' assume "ln' < length (heap s')"
      then have v': "ln' < length (heap s)" by (simp add: s')
      show "count_list (chan_events (trace s')) (Chan_close ln') =
             (if conn (heap s' ! ln') = Closed then 1 else 0)"
        using wf_closes [OF w v'] op valid v'
        by (cases "ln' = ln") (simp_all add: s' chan_events_snoc_close)
    qed
  qed
qed

lemma Listen_cases:
  assumes "\<not> mu s"
  shows "Listen e netw address s =
     (case SplitHostPort e address of
        Inl err \<Rightarrow> Inr (Inl (Errorf ''tsnet: %w'' [E err]), s)
      | Inr (h, p) \<Rightarrow>
          (case Start e s of
             (Some err, s1) \<Rightarrow> Inr (Inl err, s1)
           | (None, s1) \<Rightarrow>
               (let k = \<lparr>network = netw, host = h, port = p\<rparr>;
                    s2 = s1\<lparr>heap := heap s1 @ [\<lparr>key = k, addr = address, conn = Open\<rparr>],
                            listeners := Some (entries s1)\<rparr> in
                if registry s1 k \<noteq> None
                then Inr (Inl (Errorf ''tsnet: listener already open for %s, %s''
                                 [S netw, S address]), s2)
                else Inr (Inr (length (heap s1)),
                          s2\<lparr>listeners := Some (AList.update k (length (heap s1)) (entries s1))\<rparr>))))"
proof (cases "SplitHostPort e address")
  case (Inl err)
  then show ?thesis by (simp add: Listen_def)
next
  case (Inr hp)
  obtain h p where hp: "hp = (h, p)" by force
  obtain r s1 where st: "Start e s = (r, s1)" by force
  have m: "\<not> mu s1" using Start_keeps [of e s] assms st by simp
  show ?thesis
  proof (cases r)
    case (Some err)
    then show ?thesis by (simp add: Listen_def Inr hp st)
  next
    case None
    show ?thesis
      using m
      by (cases "listeners s1")
        (auto simp: Listen_def Inr hp st None Let_def Lock_def Unlock_def registry_def
          entries_def split: option.splits)
  qed
qed

lemma wf_grow:
  assumes w: "wellformed s"
    and s': "mu s' = mu s" "heap s' = heap s @ [l]" "trace s' = trace s"
    and l: "conn l = Open"
    and ent: "set (entries s') \<subseteq> insert (key l, length (heap s)) (set (entries s))"
  shows "wellformed s'"
proof (rule wfI)
  show "\<not> mu s'" using wf_mu [OF w] s' by simp
next
  fix k' ln assume a: "(k', ln) \<in> set (entries s')"
  show "ln < length (heap s') \<and> key (heap s' ! ln) = k' \<and> conn (heap s' ! ln) = Open"
  proof (cases "(k', ln) \<in> set (entries s)")
    case True
    then show ?thesis using wf_entry [OF w True] by (simp add: s' nth_append)
  next
    case False
    then have "(k', ln) = (key l, length (heap s))"
      using a ent by auto
    then show ?thesis using l by (simp add: s')
  qed
next
  fix ev ln assume "ev \<in> set (chan_events (trace s'))" "chan_lid ev = Some ln"
  then show "ln < length (heap s')"
    using wf_chan_lid [OF w, of ev ln] by (simp add: s')
next
  fix ln assume v: "ln < length (heap s')"
  show "count_list (chan_events (trace s')) (Chan_close ln) =
         (if conn (heap s' ! ln) = Closed then 1 else 0)"
  proof (cases "ln < length (heap s)")
    case True
    then show ?thesis using wf_closes [OF w True] by (simp add: s' nth_append)
  next
    case False
    then have eq: "ln = length (heap s)" using v by (simp add: s')
    have "Chan_close ln \<notin> set (chan_events (trace s))"
      using wf_chan_lid [OF w, of "Chan_close ln" ln] False by auto
    then have "count_list (chan_events (trace s)) (Chan_close ln) = 0" by simp
    then show ?thesis using l by (simp add: s' eq)
  qed
qed

lemma wf_Listen:
  assumes w: "wellformed s" and c: "Listen e netw address s = Inr (r, s')"
  shows "wellformed s'"
proof (cases "SplitHostPort e address")
  case (Inl err)
  then show ?thesis using c w by (simp add: Listen_def)
next
  case (Inr hp)
  obtain h p where hp: "hp = (h, p)" by force
  obtain r1 s1 where st: "Start e s = (r1, s1)" by force
  have w1: "wellformed s1" using wf_Start [of e s] w st by simp
  note lc = Listen_cases [OF wf_mu [OF w], of e netw address, unfolded Inr hp st, simplified]
  show ?thesis
  proof (cases r1)
    case (Some err)
    then show ?thesis using c w1 lc by simp
  next
    case None
    let ?k = "\<lparr>network = netw, host = h, port = p\<rparr>"
    let ?l = "\<lparr>key = ?k, addr = address, conn = Open\<rparr>"
    have "mu s' = mu s1 \<and> heap s' = heap s1 @ [?l] \<and> trace s' = trace s1 \<and>
          set (entries s') \<subseteq> insert (?k, length (heap s1)) (set (entries s1))"
      using c lc None set_AList_update [of ?k "length (heap s1)" "entries s1"]
      by (auto simp: Let_def entries_def split: if_splits)
    then show ?thesis
      using wf_grow [OF w1, of s' ?l] by simp
  qed
qed

lemma forwardTCP_lookup_free:
  "\<not> mu s \<Longrightarrow> forwardTCP_lookup prt s = Inr (registry s (dispatch_key prt), s)"
  by (simp add: forwardTCP_lookup_def Lock_def Unlock_def registry_def dispatch_key_def
      mu_False_id)

lemma forwardTCP_lookup_held: "mu s \<Longrightarrow> forwardTCP_lookup prt s = Inl Deadlock"
  by (simp add: forwardTCP_lookup_def Lock_def)

lemma forwardTCP_select_open:
  assumes "ln < length (heap s)" "conn (heap s ! ln) = Open"
  shows "forwardTCP_select c ln w s =
     Inr (s\<lparr>trace := trace s @
            [case fst (projr (select_send_or_timer Open w time_Second)) of
               SendCase \<Rightarrow> Chan_send ln c | TimerCase \<Rightarrow> Conn_Close c]\<rparr>)"
  using assms
  by (simp add: forwardTCP_select_def deref_def select_send_or_timer_def emit_def
      split: option.splits)

lemma forwardTCP_select_closed:
  assumes "ln < length (heap s)" "conn (heap s ! ln) = Closed"
  shows "forwardTCP_select c ln w s = Inl (Panic ''send on closed channel'')"
  using assms
  by (simp add: forwardTCP_select_def deref_def select_send_or_timer_def)

lemma forwardTCP_select_Inr:
  assumes "forwardTCP_select c ln w s = Inr s'"
  shows "ln < length (heap s) \<and> conn (heap s ! ln) = Open \<and>
     (s' = s\<lparr>trace := trace s @ [Conn_Close c]\<rparr> \<or> s' = s\<lparr>trace := trace s @ [Chan_send ln c]\<rparr>)"
proof -
  have v: "ln < length (heap s)"
    using assms by (cases "ln < length (heap s)") (simp_all add: forwardTCP_select_def deref_def)
  have op: "conn (heap s ! ln) = Open"
    using assms forwardTCP_select_closed [OF v, of c w] by (cases "conn (heap s ! ln)") simp_all
  show ?thesis
    using assms v op forwardTCP_select_open [OF v op, of c w] by (auto split: selected.splits)
qed

lemma listener_Close_open:
  assumes "listener_Close ln s = Inr (r, s')" "conn (heap s' ! ln) = Open"
  shows "s' = s\<lparr>mu := False\<rparr>"
  using assms
  by (auto simp: listener_Close_def deref_def Lock_def Unlock_def emit_def
      split: if_splits chan.splits)

lemma forwardTCP_unregistered:
  assumes "\<not> mu s" "registry s (dispatch_key prt) = None"
  shows "forwardTCP c prt w s = Inr (s\<lparr>trace := trace s @ [Conn_Close c]\<rparr>)"
  using assms by (simp add: forwardTCP_def forwardTCP_lookup_free emit_def)

lemma forwardTCP_registered:
  assumes "\<not> mu s" "registry s (dispatch_key prt) = Some ln" "ln < length (heap s)"
    "conn (heap s ! ln) = Open" "\<not> closes_during_wait w time_Second"
  shows "forwardTCP c prt w s =
     Inr (s\<lparr>trace := trace s @
            [case fst (projr (select_send_or_timer Open w time_Second)) of
               SendCase \<Rightarrow> Chan_send ln c | TimerCase \<Rightarrow> Conn_Close c]\<rparr>)"
  using assms forwardTCP_select_open [of ln s c w]
  by (simp add: forwardTCP_def forwardTCP_lookup_free)

lemma forwardTCP_closed_during_wait:
  assumes m: "\<not> mu s" and r: "registry s (dispatch_key prt) = Some ln"
    and v: "ln < length (heap s)" and k: "key (heap s ! ln) = dispatch_key prt"
    and op: "conn (heap s ! ln) = Open" and cl: "closes_during_wait w time_Second"
  shows "forwardTCP c prt w s = Inl (Panic ''send on closed channel'')"
proof -
  let ?s3 = "s\<lparr>listeners := map_option (AList.delete (key (heap s ! ln))) (listeners s),
            heap := (heap s)[ln := (heap s ! ln)\<lparr>conn := Closed\<rparr>],
            trace := trace s @ [Chan_close ln]\<rparr>"
  have c: "listener_Close ln s = Inr (None, ?s3)"
    using listener_Close_effective [OF v m _ op] r k by simp
  have "forwardTCP_select c ln w ?s3 = Inl (Panic ''send on closed channel'')"
    by (rule forwardTCP_select_closed) (simp_all add: v)
  then show ?thesis
    using m r cl c by (simp add: forwardTCP_def forwardTCP_lookup_free)
qed

lemma forwardTCP_Inr:
  assumes c: "forwardTCP c prt w s = Inr s'"
  shows "\<not> mu s \<and>
     (s' = s\<lparr>trace := trace s @ [Conn_Close c]\<rparr> \<or>
      (\<exists>ln. registry s (dispatch_key prt) = Some ln \<and>
         s' = s\<lparr>trace := trace s @ [Chan_send ln c]\<rparr>))"
proof -
  have m: "\<not> mu s"
    using c forwardTCP_lookup_held [of s prt] by (cases "mu s") (simp_all add: forwardTCP_def)
  note lk = forwardTCP_lookup_free [OF m, of prt]
  show ?thesis
  proof (cases "registry s (dispatch_key prt)")
    case None
    then show ?thesis using forwardTCP_unregistered [OF m None, of c w] c m by simp
  next
    case (Some ln)
    have "\<exists>s3. forwardTCP_select c ln w s3 = Inr s' \<and> s3 = s"
    proof (cases "closes_during_wait w time_Second")
      case False
      then show ?thesis using c lk Some by (simp add: forwardTCP_def)
    next
      case True
      then obtain r s3 where lc: "listener_Close ln s = Inr (r, s3)"
        and sel: "forwardTCP_select c ln w s3 = Inr s'"
        using c lk Some by (cases "listener_Close ln s") (auto simp: forwardTCP_def)
      have "conn (heap s3 ! ln) = Open" using forwardTCP_select_Inr [OF sel] by simp
      then have "s3 = s" using listener_Close_open [OF lc] m by (simp add: mu_False_id)
      then show ?thesis using sel by simp
    qed
    then have "forwardTCP_select c ln w s = Inr s'" by simp
    then show ?thesis using forwardTCP_select_Inr [of c ln w s s'] m Some by auto
  qed
qed

lemma wf_forwardTCP:
  assumes w: "wellformed s" and c: "forwardTCP c prt rv s = Inr s'"
  shows "wellformed s'"
proof (cases "registry s (dispatch_key prt)")
  case None
  have "s' = s\<lparr>trace := trace s @ [Conn_Close c]\<rparr>"
    using forwardTCP_unregistered [OF wf_mu [OF w] None] c by simp
  then have "wellformed s' = wellformed s"
    by (intro wf_cong) (simp_all add: chan_events_snoc_Conn)
  then show ?thesis using w by simp
next
  case (Some ln)
  note r = wf_registry [OF w Some]
  have v: "ln < length (heap s)" and op: "conn (heap s ! ln) = Open" using r by simp_all
  have "s' = s\<lparr>trace := trace s @ [Conn_Close c]\<rparr> \<or> s' = s\<lparr>trace := trace s @ [Chan_send ln c]\<rparr>"
    using forwardTCP_Inr [OF c] Some by auto
  then show ?thesis
  proof
    assume "s' = s\<lparr>trace := trace s @ [Conn_Close c]\<rparr>"
    then have "wellformed s' = wellformed s"
      by (intro wf_cong) (simp_all add: chan_events_snoc_Conn)
    then show ?thesis using w by simp
  next
    assume s': "s' = s\<lparr>trace := trace s @ [Chan_send ln c]\<rparr>"
    show ?thesis
    proof (rule wfI)
      show "\<not> mu s'" using wf_mu [OF w] by (simp add: s')
    next
      fix k ln' assume "(k, ln') \<in> set (entries s')"
      then have "(k, ln') \<in> set (entries s)" by (simp add: s' entries_def)
      then show "ln' < length (heap s') \<and> key (heap s' ! ln') = k \<and> conn (heap s' ! ln') = Open"
        using wf_entry [OF w] by (simp add: s')
    next
      fix ev ln' assume "ev \<in> set (chan_events (trace s'))" "chan_lid ev = Some ln'"
      then have "ev \<in> set (chan_events (trace s)) \<or> ln' = ln"
        by (auto simp: s' chan_events_snoc_send)
      then show "ln' < length (heap s')"
        using wf_chan_lid [OF w _ \<open>chan_lid ev = Some ln'\<close>] v by (auto simp: s')
    next
      fix ln' assume "ln' < length (heap s')"
      then have v': "ln' < length (heap s)" by (simp add: s')
      show "count_list (chan_events (trace s')) (Chan_close ln') =
             (if conn (heap s' ! ln') = Closed then 1 else 0)"
        using wf_closes [OF w v'] by (simp add: s' chan_events_snoc_send)
    qed
  qed
qed

lemma Close_no_listeners:
  assumes "\<not> mu s" "entries s = []" "shutdownCtx s \<noteq> None" "lb s \<noteq> None"
    "linkMon s \<noteq> None" "localAPIListener s \<noteq> None"
  shows "Close s =
     Inr (None,
          s\<lparr>shutdownCtx := Some Canceled, listeners := None,
            trace := trace s @ [Call_shutdownCancel, Call_lb_Shutdown, Call_linkMon_Close,
                                Call_localAPIListener_Close]\<rparr>)"
  using assms
  by (auto simp: Close_def Let_def emit_def Lock_def Unlock_def entries_def
      split: option.splits)

lemma Close_with_listeners:
  assumes "entries s \<noteq> []"
  shows "\<exists>f. Close s = Inl f"
proof (cases "shutdownCtx s = None \<or> lb s = None \<or> linkMon s = None \<or> localAPIListener s = None")
  case True
  then show ?thesis
    by (auto simp: Close_def Let_def emit_def split: option.splits)
next
  case False
  show ?thesis
  proof (cases "mu s")
    case True
    then show ?thesis
      using False by (auto simp: Close_def Let_def emit_def Lock_def split: option.splits)
  next
    case free: False
    define s3 where "s3 = (emit [Call_lb_Shutdown, Call_linkMon_Close, Call_localAPIListener_Close]
        (emit [Call_shutdownCancel] (s\<lparr>shutdownCtx := Some Canceled\<rparr>)))\<lparr>mu := True\<rparr>"
    have ent: "(case listeners s3 of None \<Rightarrow> [] | Some al \<Rightarrow> al) = entries s"
      by (simp add: s3_def emit_def entries_def)
    have "mu s3" by (simp add: s3_def)
    then obtain f where f: "close_all (map snd (entries s)) s3 = Inl f"
      using close_all_locked [of s3 "map snd (entries s)"] assms by auto
    have "Close s = Inl f"
      using False free f ent
      by (auto simp: Close_def Let_def Lock_def emit_def s3_def split: option.splits)
    then show ?thesis by blast
  qed
qed

lemma Close_returns:
  assumes "Close s = Inr (r, s')"
  shows "entries s = [] \<and> r = None \<and> mu s' = mu s \<and> heap s' = heap s \<and> listeners s' = None \<and>
         trace s' = trace s @ [Call_shutdownCancel, Call_lb_Shutdown, Call_linkMon_Close,
                                Call_localAPIListener_Close]"
proof -
  have e: "entries s = []" using Close_with_listeners [of s] assms by auto
  have m: "\<not> mu s" using assms by (auto simp: Close_def Let_def Lock_def emit_def split: option.splits if_splits)
  have p: "shutdownCtx s \<noteq> None" "lb s \<noteq> None" "linkMon s \<noteq> None" "localAPIListener s \<noteq> None"
    using assms by (auto simp: Close_def Let_def emit_def split: option.splits if_splits)
  show ?thesis
    using Close_no_listeners [OF m e p] assms m by (simp add: e)
qed

lemma wf_Close:
  assumes w: "wellformed s" and c: "Close s = Inr (r, s')"
  shows "wellformed s'"
proof -
  note cr = Close_returns [OF c]
  show ?thesis
  proof (rule wfI)
    show "\<not> mu s'" using cr wf_mu [OF w] by simp
  next
    fix k ln assume "(k, ln) \<in> set (entries s')"
    then show "ln < length (heap s') \<and> key (heap s' ! ln) = k \<and> conn (heap s' ! ln) = Open"
      using cr by (simp add: entries_def)
  next
    fix ev ln assume "ev \<in> set (chan_events (trace s'))" "chan_lid ev = Some ln"
    then have "ev \<in> set (chan_events (trace s))" using cr by (auto simp: chan_events_def)
    then show "ln < length (heap s')"
      using wf_chan_lid [OF w _ \<open>chan_lid ev = Some ln\<close>] cr by simp
  next
    fix ln assume "ln < length (heap s')"
    then have v: "ln < length (heap s)" using cr by simp
    have "chan_events (trace s') = chan_events (trace s)" using cr by (simp add: chan_events_def)
    then show "count_list (chan_events (trace s')) (Chan_close ln) =
             (if conn (heap s' ! ln) = Closed then 1 else 0)"
      using wf_closes [OF w v] cr by simp
  qed
qed

lemma wf_Dial: "wellformed (snd (Dial e netw address s)) = wellformed s"
proof -
  have "snd (Dial e netw address s) = snd (Start e s)"
    by (simp add: Dial_def split: prod.splits option.splits)
  then show ?thesis by (simp add: wf_Start)
qed

lemma wf_exec:
  assumes "wellformed s" "exec e c s = Inr s'"
  shows "wellformed s'"
proof (cases c)
  case DoStart
  then show ?thesis using assms wf_Start [of e s] by auto
next
  case (DoDial netw address)
  then show ?thesis using assms wf_Dial [of e netw address s] by auto
next
  case (DoListen netw address)
  then obtain r where "Listen e netw address s = Inr (r, s')"
    using assms by (cases "Listen e netw address s") auto
  then show ?thesis using wf_Listen assms by blast
next
  case (DoListenerClose ln)
  then obtain r where "listener_Close ln s = Inr (r, s')"
    using assms by (cases "listener_Close ln s") auto
  then show ?thesis using wf_listener_Close assms by blast
next
  case (DoForwardTCP c prt w)
  then show ?thesis using assms wf_forwardTCP by auto
next
  case DoClose
  then obtain r where "Close s = Inr (r, s')"
    using assms by (cases "Close s") auto
  then show ?thesis using wf_Close assms by blast
qed

lemma wf_run: "wellformed s \<Longrightarrow> run e cs s = Inr s' \<Longrightarrow> wellformed s'"
proof (induction cs arbitrary: s)
  case Nil
  then show ?case by simp
next
  case (Cons c cs)
  then obtain s1 where "exec e c s = Inr s1" "run e cs s1 = Inr s'"
    by (cases "exec e c s") auto
  then show ?case using Cons wf_exec by blast
qed

lemma run_append:
  "run e (cs @ cs') s = (case run e cs s of Inl f \<Rightarrow> Inl f | Inr s' \<Rightarrow> run e cs' s')"
  by (induction cs arbitrary: s) (auto split: sum.splits)

subsection \<open>Listeners stay, connections go to dispatch keys\<close>

lemma growsI:
  assumes "\<And>ln. ln < length (heap s) \<Longrightarrow>
     ln < length (heap s') \<and> key (heap s' ! ln) = key (heap s ! ln) \<and>
     addr (heap s' ! ln) = addr (heap s ! ln) \<and>
     (conn (heap s ! ln) = Closed \<longrightarrow> conn (heap s' ! ln) = Closed)"
  shows "grows s s'"
  using assms by (simp add: grows_def)

lemma growsD:
  "grows s s' \<Longrightarrow> ln < length (heap s) \<Longrightarrow>
     ln < length (heap s') \<and> key (heap s' ! ln) = key (heap s ! ln) \<and>
     addr (heap s' ! ln) = addr (heap s ! ln) \<and>
     (conn (heap s ! ln) = Closed \<longrightarrow> conn (heap s' ! ln) = Closed)"
  by (simp add: grows_def)

lemma grows_same: "heap s' = heap s \<Longrightarrow> grows s s'"
  by (simp add: grows_def)

lemma grows_trans:
  assumes "grows s s1" "grows s1 s2"
  shows "grows s s2"
proof (rule growsI)
  fix ln assume "ln < length (heap s)"
  note a = growsD [OF assms(1) this]
  then have "ln < length (heap s1)" by simp
  note b = growsD [OF assms(2) this]
  show "ln < length (heap s2) \<and> key (heap s2 ! ln) = key (heap s ! ln) \<and>
     addr (heap s2 ! ln) = addr (heap s ! ln) \<and>
     (conn (heap s ! ln) = Closed \<longrightarrow> conn (heap s2 ! ln) = Closed)"
    using a b by simp
qed

lemma grows_Start: "grows s (snd (Start e s))"
  using Start_keeps [of e s] by (simp add: grows_same)

lemma Listen_heap:
  assumes "Listen e netw address s = Inr (r, s')"
  shows "heap s' = heap s \<or> (\<exists>l. heap s' = heap s @ [l])"
proof (cases "mu s")
  case False
  obtain r1 s1 where st: "Start e s = (r1, s1)" by force
  have h: "heap s1 = heap s" using Start_keeps [of e s] st by simp
  show ?thesis
    using assms Listen_cases [OF False, of e netw address] h
    by (auto simp: st Let_def split: sum.splits option.splits if_splits)
next
  case True
  obtain r1 s1 where st: "Start e s = (r1, s1)" by force
  have h: "heap s1 = heap s" "mu s1" using Start_keeps [of e s] st True by simp_all
  show ?thesis
    using assms h
    by (auto simp: Listen_def st Let_def Lock_def split: sum.splits option.splits)
qed

lemma grows_snoc: "heap s' = heap s @ [l] \<Longrightarrow> grows s s'"
  by (simp add: grows_def nth_append)

lemma grows_Listen: "Listen e netw address s = Inr (r, s') \<Longrightarrow> grows s s'"
  using Listen_heap [of e netw address s r s'] grows_same grows_snoc by blast

lemma listener_Close_heap:
  assumes "listener_Close ln s = Inr (r, s')"
  shows "heap s' = heap s \<or> (ln < length (heap s) \<and> heap s' = (heap s)[ln := (heap s ! ln)\<lparr>conn := Closed\<rparr>])"
  using assms
  by (auto simp: listener_Close_def deref_def Lock_def Unlock_def emit_def
      split: if_splits chan.splits)

lemma grows_close:
  "ln < length (heap s) \<Longrightarrow> heap s' = (heap s)[ln := (heap s ! ln)\<lparr>conn := Closed\<rparr>] \<Longrightarrow>
   grows s s'"
  by (simp add: grows_def nth_list_update)

lemma grows_listener_Close: "listener_Close ln s = Inr (r, s') \<Longrightarrow> grows s s'"
  using listener_Close_heap [of ln s r s'] grows_same grows_close by blast

lemma forwardTCP_heap: "forwardTCP c prt w s = Inr s' \<Longrightarrow> heap s' = heap s"
  using forwardTCP_Inr [of c prt w s s'] by auto

lemma grows_exec: "exec e cl s = Inr s' \<Longrightarrow> grows s s'"
proof (cases cl)
  case DoStart
  assume "exec e cl s = Inr s'"
  then show ?thesis using DoStart grows_Start [of s e] by auto
next
  case (DoDial netw address)
  assume "exec e cl s = Inr s'"
  moreover have "snd (Dial e netw address s) = snd (Start e s)"
    by (simp add: Dial_def split: prod.splits option.splits)
  ultimately show ?thesis using DoDial grows_Start [of s e] by auto
next
  case (DoListen netw address)
  assume "exec e cl s = Inr s'"
  then obtain r where "Listen e netw address s = Inr (r, s')"
    using DoListen by (cases "Listen e netw address s") auto
  then show ?thesis by (rule grows_Listen)
next
  case (DoListenerClose ln)
  assume "exec e cl s = Inr s'"
  then obtain r where "listener_Close ln s = Inr (r, s')"
    using DoListenerClose by (cases "listener_Close ln s") auto
  then show ?thesis by (rule grows_listener_Close)
next
  case (DoForwardTCP c prt w)
  assume "exec e cl s = Inr s'"
  then show ?thesis using DoForwardTCP forwardTCP_heap grows_same by auto
next
  case DoClose
  assume "exec e cl s = Inr s'"
  then obtain r where "Close s = Inr (r, s')"
    using DoClose by (cases "Close s") auto
  then show ?thesis using Close_returns grows_same by blast
qed

lemma grows_run: "run e cs s = Inr s' \<Longrightarrow> grows s s'"
proof (induction cs arbitrary: s)
  case Nil
  then show ?case by (simp add: grows_same)
next
  case (Cons cl cs)
  then obtain s1 where "exec e cl s = Inr s1" "run e cs s1 = Inr s'"
    by (cases "exec e cl s") auto
  then show ?case using Cons.IH grows_exec grows_trans by blast
qed

lemma originI:
  assumes "\<And>ln. ln < length (heap s) \<Longrightarrow>
      SplitHostPort e (addr (heap s ! ln)) =
        Inr (host (key (heap s ! ln)), port (key (heap s ! ln)))"
    and "heap s = [] \<or> (initOnce s \<and> initErr s = None)"
  shows "origin e s"
  using assms by (simp add: origin_def)

lemma origin_split:
  "origin e s \<Longrightarrow> ln < length (heap s) \<Longrightarrow>
   SplitHostPort e (addr (heap s ! ln)) = Inr (host (key (heap s ! ln)), port (key (heap s ! ln)))"
  by (simp add: origin_def)

lemma origin_started:
  "origin e s \<Longrightarrow> ln < length (heap s) \<Longrightarrow> initOnce s \<and> initErr s = None"
  by (auto simp: origin_def)

lemma origin_same:
  assumes "origin e s" "heap s' = heap s" "initOnce s' = initOnce s" "initErr s' = initErr s"
  shows "origin e s'"
  using assms by (simp add: origin_def)

lemma origin_Start:
  assumes "origin e s"
  shows "origin e (snd (Start e s))"
proof (cases "initOnce s")
  case True
  then show ?thesis using assms by (simp add: Start_def)
next
  case False
  then have "heap s = []" using assms by (auto simp: origin_def)
  then have "heap (snd (Start e s)) = []" using Start_keeps [of e s] by simp
  then show ?thesis by (simp add: origin_def)
qed

lemma origin_new_Server: "origin e (new_Server d st h eph fs)"
  by (simp add: origin_def new_Server_def)

lemma origin_Listen:
  assumes o: "origin e s" and c: "Listen e netw address s = Inr (r, s')"
  shows "origin e s'"
proof (cases "SplitHostPort e address")
  case (Inl err)
  then show ?thesis using c o by (simp add: Listen_def)
next
  case (Inr hp)
  obtain h p where hp: "hp = (h, p)" by force
  obtain r1 s1 where st: "Start e s = (r1, s1)" by force
  have o1: "origin e s1" using origin_Start [OF o] st by simp
  have r1: "r1 = initErr s1" and once: "initOnce s1"
    using fst_Start [of e s] initOnce_Start [of e s] st by simp_all
  show ?thesis
  proof (cases r1)
    case (Some err)
    then show ?thesis using c o1 by (simp add: Listen_def Inr hp st)
  next
    case None
    let ?l = "\<lparr>key = \<lparr>network = netw, host = h, port = p\<rparr>, addr = address, conn = Open\<rparr>"
    have "(heap s' = heap s1 @ [?l] \<or> heap s' = heap s1) \<and> initOnce s' = initOnce s1 \<and> initErr s' = initErr s1"
      using c
      by (auto simp: Listen_def Inr hp st None Let_def Lock_def Unlock_def
          split: if_splits option.splits)
    then show ?thesis
      using o1 once r1 None Inr hp
      by (auto simp: origin_def nth_append)
  qed
qed

lemma origin_listener_Close:
  assumes o: "origin e s" and c: "listener_Close ln s = Inr (r, s')"
  shows "origin e s'"
proof -
  have i: "initOnce s' = initOnce s \<and> initErr s' = initErr s"
    using c
    by (auto simp: listener_Close_def deref_def Lock_def Unlock_def emit_def
        split: if_splits chan.splits)
  show ?thesis
    using listener_Close_heap [OF c] o i
    by (auto simp: origin_def nth_list_update)
qed

lemma origin_forwardTCP:
  assumes o: "origin e s" and c: "forwardTCP cn prt w s = Inr s'"
  shows "origin e s'"
proof -
  have i: "initOnce s' = initOnce s \<and> initErr s' = initErr s"
    using forwardTCP_Inr [OF c] by auto
  show ?thesis
    using forwardTCP_heap [OF c] o i by (simp add: origin_def)
qed

lemma origin_Close:
  assumes o: "origin e s" and c: "Close s = Inr (r, s')"
  shows "origin e s'"
proof -
  note cr = Close_returns [OF c]
  have m: "\<not> mu s" using cr c by (auto simp: Close_def Let_def Lock_def emit_def split: option.splits if_splits)
  have p: "shutdownCtx s \<noteq> None" "lb s \<noteq> None" "linkMon s \<noteq> None" "localAPIListener s \<noteq> None"
    using c by (auto simp: Close_def Let_def emit_def split: option.splits if_splits)
  have "initOnce s' = initOnce s \<and> initErr s' = initErr s"
    using Close_no_listeners [OF m _ p] cr c by simp
  then show ?thesis using o cr by (simp add: origin_def)
qed

lemma origin_exec:
  assumes "origin e s" "exec e cl s = Inr s'"
  shows "origin e s'"
proof (cases cl)
  case DoStart
  then show ?thesis using assms origin_Start [of e s] by auto
next
  case (DoDial netw address)
  have "snd (Dial e netw address s) = snd (Start e s)"
    by (simp add: Dial_def split: prod.splits option.splits)
  then show ?thesis using DoDial assms origin_Start [of e s] by auto
next
  case (DoListen netw address)
  then obtain r where "Listen e netw address s = Inr (r, s')"
    using assms by (cases "Listen e netw address s") auto
  then show ?thesis using origin_Listen assms by blast
next
  case (DoListenerClose ln)
  then obtain r where "listener_Close ln s = Inr (r, s')"
    using assms by (cases "listener_Close ln s") auto
  then show ?thesis using origin_listener_Close assms by blast
next
  case (DoForwardTCP c prt w)
  then show ?thesis using assms origin_forwardTCP by auto
next
  case DoClose
  then obtain r where "Close s = Inr (r, s')"
    using assms by (cases "Close s") auto
  then show ?thesis using origin_Close assms by blast
qed

lemma origin_run: "origin e s \<Longrightarrow> run e cs s = Inr s' \<Longrightarrow> origin e s'"
proof (induction cs arbitrary: s)
  case Nil
  then show ?case by simp
next
  case (Cons cl cs)
  then obtain s1 where "exec e cl s = Inr s1" "run e cs s1 = Inr s'"
    by (cases "exec e cl s") auto
  then show ?case using Cons origin_exec by blast
qed

lemma deliveries_ok_iff:
  "deliveries_ok s \<longleftrightarrow>
     (\<forall>ln c. Chan_send ln c \<in> set (chan_events (trace s)) \<longrightarrow>
        ln < length (heap s) \<and> (\<exists>prt. key (heap s ! ln) = dispatch_key prt))"
proof
  assume d: "deliveries_ok s"
  show "\<forall>ln c. Chan_send ln c \<in> set (chan_events (trace s)) \<longrightarrow>
        ln < length (heap s) \<and> (\<exists>prt. key (heap s ! ln) = dispatch_key prt)"
  proof (intro allI impI)
    fix ln c assume "Chan_send ln c \<in> set (chan_events (trace s))"
    then have "Chan_send ln c \<in> set (trace s)" by (simp add: in_chan_events)
    then show "ln < length (heap s) \<and> (\<exists>prt. key (heap s ! ln) = dispatch_key prt)"
      using d unfolding deliveries_ok_def by fastforce
  qed
next
  assume a: "\<forall>ln c. Chan_send ln c \<in> set (chan_events (trace s)) \<longrightarrow>
        ln < length (heap s) \<and> (\<exists>prt. key (heap s ! ln) = dispatch_key prt)"
  show "deliveries_ok s"
    unfolding deliveries_ok_def
  proof
    fix ev assume ev: "ev \<in> set (trace s)"
    show "case ev of Chan_send ln c \<Rightarrow> ln < length (heap s) \<and> (\<exists>prt. key (heap s ! ln) = dispatch_key prt)
          | _ \<Rightarrow> True"
    proof (cases ev)
      case (Chan_send ln c)
      then have "Chan_send ln c \<in> set (chan_events (trace s))"
        using ev by (simp add: in_chan_events)
      then have "ln < length (heap s) \<and> (\<exists>prt. key (heap s ! ln) = dispatch_key prt)"
        using a by blast
      then show ?thesis using Chan_send by simp
    qed simp_all
  qed
qed

lemma deliveries_ok_grows:
  assumes d: "deliveries_ok s" and g: "grows s s'"
    and t: "chan_events (trace s') = chan_events (trace s) \<or>
            (\<exists>ln. chan_events (trace s') = chan_events (trace s) @ [Chan_close ln])"
  shows "deliveries_ok s'"
  unfolding deliveries_ok_iff
proof (intro allI impI)
  fix ln c assume "Chan_send ln c \<in> set (chan_events (trace s'))"
  then have "Chan_send ln c \<in> set (chan_events (trace s))" using t by auto
  then have a: "ln < length (heap s) \<and> (\<exists>prt. key (heap s ! ln) = dispatch_key prt)"
    using d unfolding deliveries_ok_iff by blast
  then show "ln < length (heap s') \<and> (\<exists>prt. key (heap s' ! ln) = dispatch_key prt)"
    using growsD [OF g, of ln] by simp
qed

lemma Listen_trace:
  "Listen e netw address s = Inr (r, s') \<Longrightarrow> chan_events (trace s') = chan_events (trace s)"
proof -
  assume c: "Listen e netw address s = Inr (r, s')"
  obtain r1 s1 where st: "Start e s = (r1, s1)" by force
  have h: "chan_events (trace s1) = chan_events (trace s)" using Start_keeps [of e s] st by simp
  have "trace s' = trace s \<or> trace s' = trace s1"
    using c
    by (auto simp: Listen_def st Let_def Lock_def Unlock_def
        split: sum.splits option.splits if_splits)
  then show ?thesis using h by auto
qed

lemma listener_Close_trace:
  "listener_Close ln s = Inr (r, s') \<Longrightarrow>
   trace s' = trace s \<or> trace s' = trace s @ [Chan_close ln]"
  by (auto simp: listener_Close_def deref_def Lock_def Unlock_def emit_def
      split: if_splits chan.splits)

lemma deliveries_ok_forwardTCP:
  assumes w: "wellformed s" and d: "deliveries_ok s" and c: "forwardTCP cn prt rv s = Inr s'"
  shows "deliveries_ok s'"
proof (cases "registry s (dispatch_key prt)")
  case None
  have s': "s' = s\<lparr>trace := trace s @ [Conn_Close cn]\<rparr>"
    using forwardTCP_unregistered [OF wf_mu [OF w] None] c by simp
  show ?thesis
    by (rule deliveries_ok_grows [OF d]) (simp_all add: s' grows_same chan_events_snoc_Conn)
next
  case (Some ln)
  note r = wf_registry [OF w Some]
  have v: "ln < length (heap s)" and op: "conn (heap s ! ln) = Open" using r by simp_all
  have "s' = s\<lparr>trace := trace s @ [Conn_Close cn]\<rparr> \<or> s' = s\<lparr>trace := trace s @ [Chan_send ln cn]\<rparr>"
    using forwardTCP_Inr [OF c] Some by auto
  then show ?thesis
  proof
    assume s': "s' = s\<lparr>trace := trace s @ [Conn_Close cn]\<rparr>"
    show ?thesis
      by (rule deliveries_ok_grows [OF d]) (simp_all add: s' grows_same chan_events_snoc_Conn)
  next
    assume s': "s' = s\<lparr>trace := trace s @ [Chan_send ln cn]\<rparr>"
    have k: "key (heap s ! ln) = dispatch_key prt" using r by simp
    show ?thesis
      unfolding deliveries_ok_iff
    proof (intro allI impI)
      fix ln' c' assume "Chan_send ln' c' \<in> set (chan_events (trace s'))"
      then have "Chan_send ln' c' \<in> set (chan_events (trace s)) \<or> ln' = ln"
        by (auto simp: s' chan_events_snoc_send)
      moreover have "ln' < length (heap s) \<and> (\<exists>prt. key (heap s ! ln') = dispatch_key prt)"
        if "Chan_send ln' c' \<in> set (chan_events (trace s))"
        using d that unfolding deliveries_ok_iff by blast
      ultimately have "ln' < length (heap s) \<and> (\<exists>prt. key (heap s ! ln') = dispatch_key prt)"
        using v k by blast
      then show "ln' < length (heap s') \<and> (\<exists>prt. key (heap s' ! ln') = dispatch_key prt)"
        by (simp add: s')
    qed
  qed
qed

lemma deliveries_ok_exec:
  assumes w: "wellformed s" and d: "deliveries_ok s" and x: "exec e cl s = Inr s'"
  shows "deliveries_ok s'"
proof (cases cl)
  case DoStart
  then have "s' = snd (Start e s)" using x by auto
  then show ?thesis
    using deliveries_ok_grows [OF d grows_Start [of s e]] Start_keeps [of e s] by simp
next
  case (DoDial netw address)
  have "snd (Dial e netw address s) = snd (Start e s)"
    by (simp add: Dial_def split: prod.splits option.splits)
  then have "s' = snd (Start e s)" using x DoDial by auto
  then show ?thesis
    using deliveries_ok_grows [OF d grows_Start [of s e]] Start_keeps [of e s] by simp
next
  case (DoListen netw address)
  then obtain r where l: "Listen e netw address s = Inr (r, s')"
    using x by (cases "Listen e netw address s") auto
  show ?thesis
    using deliveries_ok_grows [OF d grows_Listen [OF l]] Listen_trace [OF l] by simp
next
  case (DoListenerClose ln)
  then obtain r where l: "listener_Close ln s = Inr (r, s')"
    using x by (cases "listener_Close ln s") auto
  show ?thesis
    using deliveries_ok_grows [OF d grows_listener_Close [OF l]] listener_Close_trace [OF l]
    by (auto simp: chan_events_snoc_close)
next
  case (DoForwardTCP c prt rv)
  then show ?thesis using deliveries_ok_forwardTCP [OF w d] x by auto
next
  case DoClose
  then obtain r where l: "Close s = Inr (r, s')"
    using x by (cases "Close s") auto
  note cr = Close_returns [OF l]
  have "chan_events (trace s') = chan_events (trace s)" using cr by (simp add: chan_events_def)
  then show ?thesis
    using deliveries_ok_grows [OF d grows_same [of s' s]] cr by simp
qed

lemma deliveries_ok_run:
  "wellformed s \<Longrightarrow> deliveries_ok s \<Longrightarrow> run e cs s = Inr s' \<Longrightarrow> deliveries_ok s'"
proof (induction cs arbitrary: s)
  case Nil
  then show ?case by simp
next
  case (Cons cl cs)
  then obtain s1 where "exec e cl s = Inr s1" "run e cs s1 = Inr s'"
    by (cases "exec e cl s") auto
  then show ?case using Cons deliveries_ok_exec wf_exec by blast
qed

lemma deliveries_ok_new_Server: "deliveries_ok (new_Server d st h eph fs)"
  by (simp add: deliveries_ok_def new_Server_def)

subsection \<open>Reachable states\<close>

lemma reachable_wf:
  "run e cs (new_Server d st h eph fs) = Inr s \<Longrightarrow> wellformed s \<and> origin e s \<and> deliveries_ok s"
proof -
  assume r: "run e cs (new_Server d st h eph fs) = Inr s"
  show ?thesis
    using wf_run [OF wf_new_Server r] origin_run [OF origin_new_Server r]
      deliveries_ok_run [OF wf_new_Server deliveries_ok_new_Server r]
    by simp
qed

lemma Listen_server0:
  "(case Listen env0 ''tcp'' '':80'' server0 of
      Inr (Inr ln, s) \<Rightarrow> ln = 0 \<and> map key (heap s) = [dispatch_key 80] \<and> map conn (heap s) = [Open] \<and>
         listeners s = Some [(dispatch_key 80, 0)] \<and> \<not> mu s \<and> initOnce s \<and> initErr s = None
    | _ \<Rightarrow> False)"
  by code_simp

lemma run_server1: "run env0 [DoListen ''tcp'' '':80''] server0 = Inr server1"
  using Listen_server0
  by (simp add: server1_def split: sum.splits prod.splits)

lemma server1_facts:
  "heap server1 \<noteq> [] \<and> key (heap server1 ! 0) = dispatch_key 80 \<and> conn (heap server1 ! 0) = Open \<and>
   registry server1 (dispatch_key 80) = Some 0 \<and> \<not> mu server1 \<and> length (heap server1) = 1 \<and>
   initOnce server1 \<and> initErr server1 = None"
proof -
  obtain f r s where l0: "Listen env0 ''tcp'' '':80'' server0 = Inl f \<or>
      Listen env0 ''tcp'' '':80'' server0 = Inr (r, s)"
    by (cases "Listen env0 ''tcp'' '':80'' server0") auto
  then have l1: "Listen env0 ''tcp'' '':80'' server0 = Inr (r, s)"
    using Listen_server0 by auto
  then have r: "r = Inr 0" using Listen_server0 by (cases r) auto
  have l: "Listen env0 ''tcp'' '':80'' server0 = Inr (Inr 0, s)" using l1 r by simp
  have f: "map key (heap s) = [dispatch_key 80]" "map conn (heap s) = [Open]"
       "listeners s = Some [(dispatch_key 80, 0)]" "\<not> mu s" "initOnce s" "initErr s = None"
    using Listen_server0 by (simp_all add: l)
  have s: "server1 = s" by (simp add: server1_def l)
  obtain l0 where h: "heap s = [l0]" using f(1) by (cases "heap s") auto
  show ?thesis using f h by (auto simp: s registry_def)
qed

subsection \<open>Listen\<close>

text \<open>
  Claim C4. On a server whose mutex is free, \<^verbatim>\<open>Listen\<close> with any network and address
  does one of four things, in this order. When the address does not split into host and
  port it returns that error wrapped in \<^verbatim>\<open>tsnet: %w\<close> and the server is untouched:
  \<^verbatim>\<open>Start\<close> has not run. Otherwise it runs \<^verbatim>\<open>Start\<close> and returns its error if it has
  one. Otherwise, when the key of the network, host and port is in the map, it returns the
  error \<^verbatim>\<open>listener already open\<close> and the map is as it was. Otherwise it returns a new
  listener, stored in the map under that key, with that key, that address and an open
  channel.
\<close>

theorem Listen_outcomes:
  assumes "\<not> mu s"
  shows
    "case SplitHostPort e address of
       Inl err \<Rightarrow> Listen e netw address s = Inr (Inl (Errorf ''tsnet: %w'' [E err]), s)
     | Inr (h, p) \<Rightarrow>
         (case Start e s of
            (Some err, s1) \<Rightarrow> Listen e netw address s = Inr (Inl err, s1)
          | (None, s1) \<Rightarrow>
              (case registry s1 \<lparr>network = netw, host = h, port = p\<rparr> of
                 Some other \<Rightarrow>
                   (\<exists>s'. Listen e netw address s =
                           Inr (Inl (Errorf ''tsnet: listener already open for %s, %s''
                                       [S netw, S address]), s') \<and>
                         registry s' = registry s1)
               | None \<Rightarrow>
                   (\<exists>s'. Listen e netw address s = Inr (Inr (length (heap s1)), s') \<and>
                         registry s' =
                           (registry s1)(\<lparr>network = netw, host = h, port = p\<rparr> \<mapsto> length (heap s1)) \<and>
                         heap s' =
                           heap s1 @ [\<lparr>key = \<lparr>network = netw, host = h, port = p\<rparr>,
                                       addr = address, conn = Open\<rparr>])))"
proof (cases "SplitHostPort e address")
  case (Inl err)
  then show ?thesis by (simp add: Listen_def)
next
  case (Inr hp)
  obtain h p where hp: "hp = (h, p)" by force
  obtain r1 s1 where st: "Start e s = (r1, s1)" by force
  note lc = Listen_cases [OF assms, of e netw address, unfolded Inr hp st, simplified]
  show ?thesis
  proof (cases r1)
    case (Some err)
    then show ?thesis using lc by (simp add: Inr hp st)
  next
    case None
    show ?thesis
      using lc
      by (cases "registry s1 \<lparr>network = netw, host = h, port = p\<rparr>")
         (auto simp: Inr hp st None Let_def registry_def entries_def update_conv'
           split: option.splits)
  qed
qed

theorem Listen_outcomes_witness:
  "\<not> mu server0 \<and>
   (\<exists>s'. Listen env0 ''tcp'' '':80'' server0 = Inr (Inr 0, s') \<and>
         registry s' \<lparr>network = ''tcp'', host = [], port = ''80''\<rparr> = Some 0) \<and>
   \<not> mu server1 \<and>
   (\<exists>s'. Listen env0 ''tcp'' '':80'' server1 =
           Inr (Inl (Errorf ''tsnet: listener already open for %s, %s'' [S ''tcp'', S '':80'']), s')) \<and>
   Listen env0 ''tcp'' ''80'' server1 =
     Inr (Inl (Errorf ''tsnet: %w'' [E (AddrError ''missing port in address'' ''80'')]), server1)"
proof -
  have m0: "\<not> mu server0" by (simp add: server0_def new_Server_def)
  have m1: "\<not> mu server1" using server1_facts by simp
  have sp: "SplitHostPort env0 '':80'' = Inr ([], ''80'')" by code_simp
  have sp2: "SplitHostPort env0 ''80'' = Inl (AddrError ''missing port in address'' ''80'')"
    by code_simp
  have ok: "fst (Start env0 server0) = None" by code_simp
  obtain s1 where st: "Start env0 server0 = (None, s1)" using ok by (cases "Start env0 server0") auto
  have r0: "registry s1 = registry server0" "heap s1 = heap server0"
    using registry_Start [of env0 server0] Start_keeps [of env0 server0] st by simp_all
  have e0: "registry server0 = Map.empty" "heap server0 = []"
    by (simp_all add: server0_def new_Server_def registry_def)
  have a: "\<exists>s'. Listen env0 ''tcp'' '':80'' server0 = Inr (Inr 0, s') \<and>
         registry s' \<lparr>network = ''tcp'', host = [], port = ''80''\<rparr> = Some 0"
    using Listen_outcomes [OF m0, where e = env0 and address = "'':80''" and netw = "''tcp''"] by (auto simp: sp st r0 e0)
  have started: "initOnce server1 \<and> initErr server1 = None"
    using server1_facts by simp
  then have st1: "Start env0 server1 = (None, server1)" by (simp add: Start_def)
  have reg1: "registry server1 \<lparr>network = ''tcp'', host = [], port = ''80''\<rparr> = Some 0"
  proof -
    have "dispatch_key 80 = \<lparr>network = ''tcp'', host = [], port = ''80''\<rparr>" by code_simp
    then show ?thesis using server1_facts by simp
  qed
  have b: "\<exists>s'. Listen env0 ''tcp'' '':80'' server1 =
           Inr (Inl (Errorf ''tsnet: listener already open for %s, %s'' [S ''tcp'', S '':80'']), s')"
    using Listen_outcomes [OF m1, where e = env0 and address = "'':80''" and netw = "''tcp''"] by (auto simp: sp st1 reg1)
  have c: "Listen env0 ''tcp'' ''80'' server1 =
     Inr (Inl (Errorf ''tsnet: %w'' [E (AddrError ''missing port in address'' ''80'')]), server1)"
    using Listen_outcomes [OF m1, where e = env0 and address = "''80''" and netw = "''tcp''"] by (simp add: sp2)
  show ?thesis using m0 m1 a b c by blast
qed

subsection \<open>The server after one Listen\<close>

lemma server1_listeners: "listeners server1 = Some [(dispatch_key 80, 0)]"
proof -
  obtain f r s where "Listen env0 ''tcp'' '':80'' server0 = Inl f \<or>
      Listen env0 ''tcp'' '':80'' server0 = Inr (r, s)"
    by (cases "Listen env0 ''tcp'' '':80'' server0") auto
  then have l1: "Listen env0 ''tcp'' '':80'' server0 = Inr (r, s)"
    using Listen_server0 by auto
  then have r: "r = Inr 0" using Listen_server0 by (cases r) auto
  show ?thesis using Listen_server0 by (simp add: server1_def l1 r)
qed

lemma select_bound:
  "select_send_or_timer ch w d = Inr (sel, t) \<Longrightarrow> t \<le> d"
  by (auto simp: select_send_or_timer_def split: chan.splits option.splits if_splits)

subsection \<open>The dispatcher\<close>

text \<open>
  In every state that calls on a fresh server lead to, \<^verbatim>\<open>forwardTCP\<close> of a connection to a
  port works as follows. When no listener is stored under \<open>dispatch_key prt\<close>, that is
  \<^verbatim>\<open>{"tcp", "", fmt.Sprint(port)}\<close>, the connection is closed and nothing else changes: it
  is sent to no channel. When a listener is stored there, the connection is offered on
  its channel against a timer of \<open>time_Second\<close>, one second in nanoseconds. When the
  listener is closed during the wait, the send panics. Otherwise, if an \<^verbatim>\<open>Accept\<close> is
  receiving before the timer fires, the connection is sent on the channel after that
  time, which is at most a second (at the very instant \<^verbatim>\<open>select\<close> chooses); if none is,
  the wait is exactly a second and the connection is closed. In these two cases only the
  trace changes: the server keeps no queue.
\<close>

lemma forwardTCP_outcomes:
  assumes "run e cs (new_Server d st h eph fs) = Inr s"
  shows
    "time_Second = 1000000000 \<and>
     (case registry s (dispatch_key prt) of
        None \<Rightarrow> forwardTCP c prt w s = Inr (s\<lparr>trace := trace s @ [Conn_Close c]\<rparr>)
      | Some ln \<Rightarrow>
          if closes_during_wait w time_Second
          then forwardTCP c prt w s = Inl (Panic ''send on closed channel'')
          else
            (case accept_after w of
               None \<Rightarrow>
                 select_send_or_timer (conn (heap s ! ln)) w time_Second =
                   Inr (TimerCase, time_Second) \<and>
                 forwardTCP c prt w s = Inr (s\<lparr>trace := trace s @ [Conn_Close c]\<rparr>)
             | Some t \<Rightarrow>
                 if t < time_Second \<or> (t = time_Second \<and> send_wins_tie w)
                 then select_send_or_timer (conn (heap s ! ln)) w time_Second =
                        Inr (SendCase, t) \<and>
                      forwardTCP c prt w s = Inr (s\<lparr>trace := trace s @ [Chan_send ln c]\<rparr>)
                 else select_send_or_timer (conn (heap s ! ln)) w time_Second =
                        Inr (TimerCase, time_Second) \<and>
                      forwardTCP c prt w s = Inr (s\<lparr>trace := trace s @ [Conn_Close c]\<rparr>)))"
proof -
  have w: "wellformed s" using reachable_wf [OF assms] by simp
  show ?thesis
  proof (cases "registry s (dispatch_key prt)")
    case None
    then show ?thesis
      using forwardTCP_unregistered [OF wf_mu [OF w] None, of c w]
      by (simp add: time_Second_def)
  next
    case (Some ln)
    note r = wf_registry [OF w Some]
    have v: "ln < length (heap s)" and op: "conn (heap s ! ln) = Open"
      and k: "key (heap s ! ln) = dispatch_key prt" using r by simp_all
    show ?thesis
    proof (cases "closes_during_wait w time_Second")
      case True
      then show ?thesis
        using forwardTCP_closed_during_wait [OF wf_mu [OF w] Some v k op True, of c]
        by (simp add: Some time_Second_def)
    next
      case False
      have "forwardTCP c prt w s =
          Inr (s\<lparr>trace := trace s @
            [case fst (projr (select_send_or_timer Open w time_Second)) of
               SendCase \<Rightarrow> Chan_send ln c | TimerCase \<Rightarrow> Conn_Close c]\<rparr>)"
        by (rule forwardTCP_registered [OF wf_mu [OF w] Some v op False])
      then show ?thesis
        using False
        by (simp add: Some op select_send_or_timer_def time_Second_def split: option.splits)
    qed
  qed
qed

lemma server1_trace:
  "chan_events (trace server1) = [] \<and> Conn_Close 9 \<notin> set (trace server1)"
proof -
  have "case Listen env0 ''tcp'' '':80'' server0 of
      Inr (r, s) \<Rightarrow> chan_events (trace s) = [] \<and> Conn_Close 9 \<notin> set (trace s)
    | Inl f \<Rightarrow> False"
    by code_simp
  then show ?thesis by (simp add: server1_def split: sum.splits prod.splits)
qed

text \<open>
  Claim C5. A connection for a port with a listener is offered on the channel of the
  listener for at most a second, and with no \<^verbatim>\<open>Accept\<close> in that second it is meant to be
  closed: the timer case of the \<^verbatim>\<open>select\<close> closes it, and so does the path for a port
  without a listener. But \<^verbatim>\<open>forwardTCP\<close> releases \<^verbatim>\<open>s.mu\<close> before it waits, and
  \<^verbatim>\<open>listener.Close\<close> closes the very channel that the send waits on. On the server with
  one listener on \<^verbatim>\<open>:80\<close>: the lookup for port 80 finds the listener and leaves the server
  as it was; no \<^verbatim>\<open>Accept\<close> is receiving, and five nanoseconds into the wait the listener
  is closed; this \<^verbatim>\<open>Close\<close> returns nil and leaves the channel closed, with connection 9
  neither sent nor closed so far; the \<^verbatim>\<open>select\<close> on that state panics, and so do
  \<^verbatim>\<open>forwardTCP\<close> and the run from the fresh server. The connection has not been closed.
  With nothing happening during the wait, the same dispatch closes the connection, and
  so does a dispatch to port 81, which has no listener.
\<close>

theorem forwardTCP_panics_when_listener_closes_during_wait:
  "run env0 [DoListen ''tcp'' '':80''] server0 = Inr server1 \<and>
   forwardTCP_lookup 80 server1 = Inr (Some 0, server1) \<and>
   accept_after wait_closed = None \<and>
   closes_during_wait wait_closed time_Second \<and>
   (\<exists>s3. listener_Close 0 server1 = Inr (None, s3) \<and>
      conn (heap s3 ! 0) = Closed \<and>
      Conn_Close 9 \<notin> set (trace s3) \<and>
      (\<forall>ln. Chan_send ln 9 \<notin> set (trace s3)) \<and>
      forwardTCP_select 9 0 wait_closed s3 = Inl (Panic ''send on closed channel'')) \<and>
   forwardTCP 9 80 wait_closed server1 = Inl (Panic ''send on closed channel'') \<and>
   run env0 [DoListen ''tcp'' '':80'', DoForwardTCP 9 80 wait_closed] server0 =
     Inl (Panic ''send on closed channel'') \<and>
   forwardTCP 9 80 wait_quiet server1 = Inr (server1\<lparr>trace := trace server1 @ [Conn_Close 9]\<rparr>) \<and>
   forwardTCP 9 81 wait_closed server1 = Inr (server1\<lparr>trace := trace server1 @ [Conn_Close 9]\<rparr>)"
proof -
  note f = server1_facts
  have m: "\<not> mu server1" and reg: "registry server1 (dispatch_key 80) = Some 0"
    and v: "0 < length (heap server1)" and k: "key (heap server1 ! 0) = dispatch_key 80"
    and op: "conn (heap server1 ! 0) = Open"
    using f by simp_all
  have r: "run env0 [DoListen ''tcp'' '':80''] server0 = Inr server1" by (rule run_server1)
  have lk: "forwardTCP_lookup 80 server1 = Inr (Some 0, server1)"
    using forwardTCP_lookup_free [OF m, of 80] reg by simp
  have na: "accept_after wait_closed = None" by (simp add: wait_closed_def)
  have cw: "closes_during_wait wait_closed time_Second"
    by (simp add: closes_during_wait_def select_send_or_timer_def wait_closed_def
        time_Second_def)
  have nq: "\<not> closes_during_wait wait_quiet time_Second"
    by (simp add: closes_during_wait_def wait_quiet_def)
  define s3 where "s3 = server1\<lparr>listeners :=
        map_option (AList.delete (key (heap server1 ! 0))) (listeners server1),
      heap := (heap server1)[0 := (heap server1 ! 0)\<lparr>conn := Closed\<rparr>],
      trace := trace server1 @ [Chan_close 0]\<rparr>"
  have lc: "listener_Close 0 server1 = Inr (None, s3)"
    unfolding s3_def using reg k by (intro listener_Close_effective [OF v m _ op]) simp
  have cl: "conn (heap s3 ! 0) = Closed" using v by (simp add: s3_def)
  have nc: "Conn_Close 9 \<notin> set (trace s3)" using server1_trace by (simp add: s3_def)
  have ns: "Chan_send ln 9 \<notin> set (trace s3)" for ln
  proof
    assume "Chan_send ln 9 \<in> set (trace s3)"
    then have "Chan_send ln 9 \<in> set (chan_events (trace server1))"
      by (simp add: s3_def in_chan_events)
    then show False using server1_trace by simp
  qed
  have v3: "0 < length (heap s3)" using v by (simp add: s3_def)
  have sel: "forwardTCP_select 9 0 wait_closed s3 = Inl (Panic ''send on closed channel'')"
    by (rule forwardTCP_select_closed [OF v3 cl])
  have p: "forwardTCP 9 80 wait_closed server1 = Inl (Panic ''send on closed channel'')"
    by (rule forwardTCP_closed_during_wait [OF m reg v k op cw])
  have "run env0 ([DoListen ''tcp'' '':80''] @ [DoForwardTCP 9 80 wait_closed]) server0 =
      Inl (Panic ''send on closed channel'')"
    unfolding run_append using r p by simp
  then have rp: "run env0 [DoListen ''tcp'' '':80'', DoForwardTCP 9 80 wait_closed] server0 =
      Inl (Panic ''send on closed channel'')"
    by simp
  have q: "forwardTCP 9 80 wait_quiet server1 =
      Inr (server1\<lparr>trace := trace server1 @ [Conn_Close 9]\<rparr>)"
    using forwardTCP_registered [OF m reg v op nq, of 9]
    by (simp add: select_send_or_timer_def wait_quiet_def)
  have ex: "\<exists>s3. listener_Close 0 server1 = Inr (None, s3) \<and>
      conn (heap s3 ! 0) = Closed \<and>
      Conn_Close 9 \<notin> set (trace s3) \<and>
      (\<forall>ln. Chan_send ln 9 \<notin> set (trace s3)) \<and>
      forwardTCP_select 9 0 wait_closed s3 = Inl (Panic ''send on closed channel'')"
    using lc cl nc ns sel by blast
  have ne: "dispatch_key 81 \<noteq> dispatch_key 80" by code_simp
  have r81: "registry server1 (dispatch_key 81) = None"
    using ne by (simp add: registry_def server1_listeners)
  have u: "forwardTCP 9 81 wait_closed server1 =
      Inr (server1\<lparr>trace := trace server1 @ [Conn_Close 9]\<rparr>)"
    by (rule forwardTCP_unregistered [OF m r81])
  show ?thesis using r lk na cw ex p rp q u by blast
qed

lemma Accept_closed:
  "conn l = Closed \<Longrightarrow> listener_Accept l offered = Returns (Inl (Errorf ''tsnet: %w'' [E ErrClosed]))"
  by (simp add: listener_Accept_def)

lemma Accept_open:
  "conn l = Open \<Longrightarrow>
   listener_Accept l offered = (case offered of None \<Rightarrow> Blocks | Some c \<Rightarrow> Returns (Inr c))"
  by (cases offered) (simp_all add: listener_Accept_def)

lemma registry_delete:
  "registry (s\<lparr>listeners := map_option (AList.delete k) (listeners s), heap := hp, trace := tr\<rparr>) =
   (registry s)(k := None)"
  by (cases "listeners s") (simp_all add: registry_def delete_conv' fun_eq_iff)

lemma Listen_free_key:
  assumes m: "\<not> mu s" and o: "initOnce s" "initErr s = None"
    and sp: "SplitHostPort e address = Inr (h, p)"
    and free: "registry s \<lparr>network = netw, host = h, port = p\<rparr> = None"
  shows "\<exists>s'. Listen e netw address s = Inr (Inr (length (heap s)), s') \<and>
     registry s' \<lparr>network = netw, host = h, port = p\<rparr> = Some (length (heap s))"
proof -
  have st: "Start e s = (None, s)" using o by (simp add: Start_def)
  show ?thesis
    using Listen_cases [OF m, of e netw address] free
    by (simp add: sp st Let_def registry_def update_conv')
qed

lemma Listen_taken_key:
  assumes m: "\<not> mu s" and o: "initOnce s" "initErr s = None"
    and sp: "SplitHostPort e address = Inr (h, p)"
    and taken: "registry s \<lparr>network = netw, host = h, port = p\<rparr> = Some ln'"
  shows "\<exists>s'. Listen e netw address s =
     Inr (Inl (Errorf ''tsnet: listener already open for %s, %s'' [S netw, S address]), s')"
proof -
  have st: "Start e s = (None, s)" using o by (simp add: Start_def)
  show ?thesis
    using Listen_cases [OF m, of e netw address] taken
    by (simp add: sp st Let_def)
qed

lemma key_eta: "\<lparr>network = network k, host = host k, port = port k\<rparr> = (k :: listenKey)"
  by simp

subsection \<open>Closing a listener\<close>

text \<open>
  Claim C6, with its last part made exact. In every state that calls on a fresh server
  lead to, and for every allocated listener: when the listener is the one stored under
  its key, its \<^verbatim>\<open>Close\<close> returns nil, removes that key from the map and no other, and
  closes the channel, so that \<^verbatim>\<open>Accept\<close> returns the error of \<^verbatim>\<open>net.ErrClosed\<close> whether
  or not a connection is offered; the key is then free, and a \<^verbatim>\<open>Listen\<close> with the
  network and the address of the closed listener returns a new listener stored under that
  key. When the listener is not the one stored under its key, \<^verbatim>\<open>Close\<close> returns nil and
  changes nothing: if nothing is stored under the key (the listener was closed before)
  the key is free and the same \<^verbatim>\<open>Listen\<close> succeeds as well; if another listener is
  stored there (the listener was replaced) the key is not free after this \<^verbatim>\<open>Close\<close>: it
  stays with that listener and \<^verbatim>\<open>Listen\<close> reports it as already open.
\<close>

theorem listener_Close_frees_key:
  assumes reach: "run e cs (new_Server d st h eph fs) = Inr s"
    and valid: "ln < length (heap s)"
  shows
    "case registry s (key (heap s ! ln)) of
       None \<Rightarrow>
         listener_Close ln s = Inr (None, s) \<and>
         (\<exists>s''. Listen e (network (key (heap s ! ln))) (addr (heap s ! ln)) s =
                  Inr (Inr (length (heap s)), s'') \<and>
                registry s'' (key (heap s ! ln)) = Some (length (heap s)))
     | Some ln' \<Rightarrow>
         if ln' = ln then
           (\<exists>s'. listener_Close ln s = Inr (None, s') \<and>
                 registry s' = (registry s)(key (heap s ! ln) := None) \<and>
                 heap s' = (heap s)[ln := (heap s ! ln)\<lparr>conn := Closed\<rparr>] \<and>
                 (\<forall>offered. listener_Accept (heap s' ! ln) offered =
                    Returns (Inl (Errorf ''tsnet: %w'' [E ErrClosed]))) \<and>
                 (\<exists>s''. Listen e (network (key (heap s ! ln))) (addr (heap s ! ln)) s' =
                          Inr (Inr (length (heap s')), s'') \<and>
                        registry s'' (key (heap s ! ln)) = Some (length (heap s'))))
         else
           listener_Close ln s = Inr (None, s) \<and>
           (\<exists>s''. Listen e (network (key (heap s ! ln))) (addr (heap s ! ln)) s =
                    Inr (Inl (Errorf ''tsnet: listener already open for %s, %s''
                                [S (network (key (heap s ! ln))), S (addr (heap s ! ln))]), s''))"
proof -
  note inv = reachable_wf [OF reach]
  have w: "wellformed s" and o: "origin e s" using inv by simp_all
  have m: "\<not> mu s" by (rule wf_mu [OF w])
  let ?l = "heap s ! ln"
  let ?k = "key ?l"
  have sp: "SplitHostPort e (addr ?l) = Inr (host ?k, port ?k)"
    by (rule origin_split [OF o valid])
  have started: "initOnce s" "initErr s = None"
    using origin_started [OF o valid] by simp_all
  show ?thesis
  proof (cases "registry s ?k")
    case None
    have c: "listener_Close ln s = Inr (None, s)"
      using listener_Close_noop [OF valid m] None by simp
    have "\<exists>s''. Listen e (network ?k) (addr ?l) s = Inr (Inr (length (heap s)), s'') \<and>
        registry s'' \<lparr>network = network ?k, host = host ?k, port = port ?k\<rparr> = Some (length (heap s))"
      by (rule Listen_free_key [OF m started sp]) (simp add: None key_eta)
    then show ?thesis using c by (simp add: None key_eta)
  next
    case (Some ln')
    show ?thesis
    proof (cases "ln' = ln")
      case False
      have c: "listener_Close ln s = Inr (None, s)"
        using listener_Close_noop [OF valid m] Some False by simp
      have "\<exists>s''. Listen e (network ?k) (addr ?l) s =
          Inr (Inl (Errorf ''tsnet: listener already open for %s, %s''
                      [S (network ?k), S (addr ?l)]), s'')"
        by (rule Listen_taken_key [OF m started sp, of _ ln']) (simp add: Some key_eta)
      then show ?thesis using c False by (simp add: Some)
    next
      case True
      have reg: "registry s ?k = Some ln" using Some True by simp
      have op: "conn ?l = Open" using wf_registry [OF w reg] by simp
      define s' where "s' = s\<lparr>listeners := map_option (AList.delete ?k) (listeners s),
            heap := (heap s)[ln := ?l\<lparr>conn := Closed\<rparr>],
            trace := trace s @ [Chan_close ln]\<rparr>"
      have c: "listener_Close ln s = Inr (None, s')"
        unfolding s'_def by (rule listener_Close_effective [OF valid m reg op])
      have r': "registry s' = (registry s)(?k := None)"
        unfolding s'_def by (rule registry_delete)
      have h': "heap s' = (heap s)[ln := ?l\<lparr>conn := Closed\<rparr>]" by (simp add: s'_def)
      have cl: "conn (heap s' ! ln) = Closed" using valid by (simp add: h')
      have m': "\<not> mu s'" "initOnce s'" "initErr s' = None"
        using m started by (simp_all add: s'_def)
      have "\<exists>s''. Listen e (network ?k) (addr ?l) s' = Inr (Inr (length (heap s')), s'') \<and>
        registry s'' \<lparr>network = network ?k, host = host ?k, port = port ?k\<rparr> = Some (length (heap s'))"
        by (rule Listen_free_key [OF m' sp]) (simp add: r' key_eta)
      then have again: "\<exists>s''. Listen e (network ?k) (addr ?l) s' = Inr (Inr (length (heap s')), s'') \<and>
        registry s'' ?k = Some (length (heap s'))"
        by (simp add: key_eta)
      have "\<exists>s'. listener_Close ln s = Inr (None, s') \<and>
                 registry s' = (registry s)(?k := None) \<and>
                 heap s' = (heap s)[ln := ?l\<lparr>conn := Closed\<rparr>] \<and>
                 (\<forall>offered. listener_Accept (heap s' ! ln) offered =
                    Returns (Inl (Errorf ''tsnet: %w'' [E ErrClosed]))) \<and>
                 (\<exists>s''. Listen e (network ?k) (addr ?l) s' =
                          Inr (Inr (length (heap s')), s'') \<and>
                        registry s'' ?k = Some (length (heap s')))"
        using c r' h' Accept_closed [OF cl] again by blast
      then show ?thesis using True by (simp add: Some)
    qed
  qed
qed

lemma server1_heap: "heap server1 = [\<lparr>key = dispatch_key 80, addr = '':80'', conn = Open\<rparr>]"
proof -
  have "case Listen env0 ''tcp'' '':80'' server0 of
      Inr (_, s) \<Rightarrow> heap s = [\<lparr>key = dispatch_key 80, addr = '':80'', conn = Open\<rparr>]
    | Inl _ \<Rightarrow> False"
    by code_simp
  then show ?thesis by (simp add: server1_def split: sum.splits prod.splits)
qed

lemma run_server3_facts:
  "case run env0 calls3 server0 of
     Inr s \<Rightarrow>
       heap s = [\<lparr>key = dispatch_key 80, addr = '':80'', conn = Closed\<rparr>,
                 \<lparr>key = dispatch_key 80, addr = '':80'', conn = Open\<rparr>] \<and>
       listeners s = Some [(dispatch_key 80, 1)]
   | Inl _ \<Rightarrow> False"
  by code_simp

lemma run_server3: "run env0 calls3 server0 = Inr server3"
  using run_server3_facts by (simp add: server3_def split: sum.splits)

lemma server3_facts:
  "heap server3 = [\<lparr>key = dispatch_key 80, addr = '':80'', conn = Closed\<rparr>,
                   \<lparr>key = dispatch_key 80, addr = '':80'', conn = Open\<rparr>] \<and>
   listeners server3 = Some [(dispatch_key 80, 1)]"
  using run_server3_facts by (simp add: server3_def split: sum.splits)

lemma dispatch_key_80: "dispatch_key 80 = \<lparr>network = ''tcp'', host = [], port = ''80''\<rparr>"
  by code_simp

theorem listener_Close_frees_key_witness:
  "run env0 [DoListen ''tcp'' '':80''] server0 = Inr server1 \<and> 0 < length (heap server1) \<and>
   (\<exists>s'. listener_Close 0 server1 = Inr (None, s') \<and>
         registry s' = (registry server1)(dispatch_key 80 := None) \<and>
         (\<exists>s''. Listen env0 ''tcp'' '':80'' s' = Inr (Inr 1, s'') \<and>
                registry s'' (dispatch_key 80) = Some 1)) \<and>
   run env0 calls3 server0 = Inr server3 \<and> 0 < length (heap server3) \<and>
   listener_Close 0 server3 = Inr (None, server3) \<and>
   (\<exists>s''. Listen env0 ''tcp'' '':80'' server3 =
            Inr (Inl (Errorf ''tsnet: listener already open for %s, %s''
                        [S ''tcp'', S '':80'']), s''))"
proof -
  have r1: "run env0 [DoListen ''tcp'' '':80''] (new_Server [] None [] False (\<lambda>p. Absent)) = Inr server1"
    using run_server1 by (simp add: server0_def)
  have r3: "run env0 calls3 (new_Server [] None [] False (\<lambda>p. Absent)) = Inr server3"
    using run_server3 by (simp add: server0_def)
  have v1: "0 < length (heap server1)" by (simp add: server1_heap)
  have v3: "0 < length (heap server3)" by (simp add: server3_facts)
  have reg1: "registry server1 (dispatch_key 80) = Some 0" using server1_facts by simp
  have reg3: "registry server3 (dispatch_key 80) = Some 1"
    by (simp add: registry_def server3_facts)
  have a: "\<exists>s'. listener_Close 0 server1 = Inr (None, s') \<and>
         registry s' = (registry server1)(dispatch_key 80 := None) \<and>
         (\<exists>s''. Listen env0 ''tcp'' '':80'' s' = Inr (Inr 1, s'') \<and>
                registry s'' (dispatch_key 80) = Some 1)"
    using listener_Close_frees_key [OF r1 v1]
    by (simp add: server1_heap reg1) (auto simp: dispatch_key_80)
  have b: "listener_Close 0 server3 = Inr (None, server3) \<and>
   (\<exists>s''. Listen env0 ''tcp'' '':80'' server3 =
            Inr (Inl (Errorf ''tsnet: listener already open for %s, %s''
                        [S ''tcp'', S '':80'']), s''))"
    using listener_Close_frees_key [OF r3 v3]
    by (simp add: server3_facts reg3) (auto simp: dispatch_key_80)
  show ?thesis using run_server1 run_server3 v1 v3 a b by blast
qed

text \<open>
  The last case at work: after \<^verbatim>\<open>Listen\<close>, \<^verbatim>\<open>Close\<close> and \<^verbatim>\<open>Listen\<close> again on
  \<^verbatim>\<open>:80\<close>, a second \<^verbatim>\<open>Close\<close> of the first listener returns nil, the key is still
  the second listener's, and \<^verbatim>\<open>Listen\<close> on \<^verbatim>\<open>:80\<close> is refused.
\<close>

theorem stale_Close_leaves_key_taken:
  "run env0 calls3 server0 = Inr server3 \<and>
   key (heap server3 ! 0) = \<lparr>network = ''tcp'', host = [], port = ''80''\<rparr> \<and>
   listener_Close 0 server3 = Inr (None, server3) \<and>
   registry server3 \<lparr>network = ''tcp'', host = [], port = ''80''\<rparr> = Some 1 \<and>
   map_sum id fst (Listen env0 ''tcp'' '':80'' server3) =
     Inr (Inl (Errorf ''tsnet: listener already open for %s, %s'' [S ''tcp'', S '':80'']))"
proof -
  have r3: "run env0 calls3 (new_Server [] None [] False (\<lambda>p. Absent)) = Inr server3"
    using run_server3 by (simp add: server0_def)
  have v0: "0 < length (heap server3)" by (simp add: server3_facts)
  have k: "key (heap server3 ! 0) = \<lparr>network = ''tcp'', host = [], port = ''80''\<rparr>"
    by (simp add: server3_facts dispatch_key_80)
  have reg3: "registry server3 \<lparr>network = ''tcp'', host = [], port = ''80''\<rparr> = Some 1"
    by (simp add: registry_def server3_facts dispatch_key_80)
  note inv = reachable_wf [OF r3]
  have m: "\<not> mu server3" using wf_mu inv by blast
  have started: "initOnce server3" "initErr server3 = None"
    using origin_started [of env0 server3 0] inv v0 by simp_all
  have n: "listener_Close 0 server3 = Inr (None, server3)"
    by (rule listener_Close_noop [OF v0 m]) (simp add: k reg3)
  have sp: "SplitHostPort env0 '':80'' = Inr ([], ''80'')" by code_simp
  obtain s'' where "Listen env0 ''tcp'' '':80'' server3 =
     Inr (Inl (Errorf ''tsnet: listener already open for %s, %s'' [S ''tcp'', S '':80'']), s'')"
    using Listen_taken_key [OF m started sp reg3] by blast
  then show ?thesis using run_server3 k n reg3 by simp
qed

subsection \<open>Decimal port strings\<close>





lemma no_double_close_exec:
  assumes w: "wellformed s"
  shows "exec e cl s \<noteq> Inl (Panic ''close of closed channel'')"
proof (cases cl)
  case DoStart
  then show ?thesis by simp
next
  case (DoDial netw address)
  then show ?thesis by simp
next
  case (DoListen netw address)
  have "\<exists>x. Listen e netw address s = Inr x"
    using Listen_cases [OF wf_mu [OF w], of e netw address]
    by (auto simp: Let_def split: sum.splits prod.splits option.splits)
  then show ?thesis using DoListen by auto
next
  case (DoListenerClose ln)
  show ?thesis
  proof (cases "ln < length (heap s)")
    case False
    then show ?thesis using DoListenerClose by (simp add: listener_Close_def deref_def)
  next
    case True
    show ?thesis
    proof (cases "registry s (key (heap s ! ln)) = Some ln")
      case False
      then show ?thesis
        using listener_Close_noop [OF True wf_mu [OF w]] DoListenerClose by simp
    next
      case reg: True
      have "conn (heap s ! ln) = Open" using wf_registry [OF w reg] by simp
      then show ?thesis
        using listener_Close_effective [OF True wf_mu [OF w] reg] DoListenerClose by simp
    qed
  qed
next
  case (DoForwardTCP c prt rv)
  show ?thesis
  proof (cases "registry s (dispatch_key prt)")
    case None
    then show ?thesis
      using forwardTCP_unregistered [OF wf_mu [OF w] None] DoForwardTCP by simp
  next
    case (Some ln)
    note r = wf_registry [OF w Some]
    show ?thesis
    proof (cases "closes_during_wait rv time_Second")
      case True
      have "forwardTCP c prt rv s = Inl (Panic ''send on closed channel'')"
        using forwardTCP_closed_during_wait [OF wf_mu [OF w] Some _ _ _ True] r by simp
      then show ?thesis using DoForwardTCP by simp
    next
      case False
      then show ?thesis
        using forwardTCP_registered [OF wf_mu [OF w] Some _ _ False] r DoForwardTCP by simp
    qed
  qed
next
  case DoClose
  show ?thesis
  proof (cases "entries s = []")
    case False
    define s3 where "s3 = (emit [Call_lb_Shutdown, Call_linkMon_Close, Call_localAPIListener_Close]
        (emit [Call_shutdownCancel] (s\<lparr>shutdownCtx := Some Canceled\<rparr>)))\<lparr>mu := True\<rparr>"
    have ent: "(case listeners s3 of None \<Rightarrow> [] | Some al \<Rightarrow> al) = entries s"
      by (simp add: s3_def emit_def entries_def)
    have "mu s3" by (simp add: s3_def)
    then have f: "close_all (map snd (entries s)) s3 \<noteq> Inl (Panic ''close of closed channel'')"
      using close_all_locked [of s3 "map snd (entries s)"] False by auto
    have "Close s \<noteq> Inl (Panic ''close of closed channel'')"
      using f ent wf_mu [OF w]
      by (auto simp: Close_def Let_def Lock_def emit_def s3_def split: option.splits sum.splits)
    then show ?thesis using DoClose by (cases "Close s") auto
  next
    case True
    have "Close s \<noteq> Inl (Panic ''close of closed channel'')"
      using True wf_mu [OF w]
      by (auto simp: Close_def Let_def Lock_def emit_def entries_def split: option.splits sum.splits)
    then show ?thesis using DoClose by (cases "Close s") auto
  qed
qed

lemma no_double_close_run:
  "wellformed s \<Longrightarrow> run e cs s \<noteq> Inl (Panic ''close of closed channel'')"
proof (induction cs arbitrary: s)
  case Nil
  then show ?case by simp
next
  case (Cons cl cs)
  show ?case
  proof (cases "exec e cl s")
    case (Inl f)
    then show ?thesis using no_double_close_exec [OF Cons.prems, of e cl] by simp
  next
    case (Inr s1)
    then show ?thesis using Cons.IH [OF wf_exec [OF Cons.prems Inr]] by simp
  qed
qed

lemma Listen_success:
  assumes m: "\<not> mu s"
    and l: "Listen e netw address s = Inr (Inr ln, s1)"
    and sp: "SplitHostPort e address = Inr (h, p)"
  shows "ln = length (heap s) \<and>
     heap s1 = heap s @ [\<lparr>key = \<lparr>network = netw, host = h, port = p\<rparr>, addr = address, conn = Open\<rparr>] \<and>
     registry s1 \<lparr>network = netw, host = h, port = p\<rparr> = Some ln"
proof -
  obtain r0 s0 where st: "Start e s = (r0, s0)" by force
  have h0: "heap s0 = heap s" using Start_keeps [of e s] st by simp
  show ?thesis
    using Listen_cases [OF m, of e netw address] l h0
    by (cases r0; cases "registry s0 \<lparr>network = netw, host = h, port = p\<rparr>")
       (auto simp: sp st Let_def registry_def update_conv')
qed

subsection \<open>Which listener a connection goes to\<close>




lemma count_close_exec:
  assumes w: "wellformed s" and valid: "ln < length (heap s)" and x: "exec e cl s = Inr s'"
  shows "count_list (trace s') (Chan_close ln) =
     count_list (trace s) (Chan_close ln) +
       (if cl = DoListenerClose ln \<and> registry s (key (heap s ! ln)) = Some ln then 1 else 0)"
proof (cases cl)
  case DoStart
  then have "s' = snd (Start e s)" using x by auto
  then have "chan_events (trace s') = chan_events (trace s)" using Start_keeps [of e s] by simp
  then have "count_list (chan_events (trace s')) (Chan_close ln) =
      count_list (chan_events (trace s)) (Chan_close ln)" by simp
  then show ?thesis using DoStart by (simp add: count_chan_events)
next
  case (DoDial netw address)
  have "snd (Dial e netw address s) = snd (Start e s)"
    by (simp add: Dial_def split: prod.splits option.splits)
  then have "s' = snd (Start e s)" using x DoDial by auto
  then have "chan_events (trace s') = chan_events (trace s)" using Start_keeps [of e s] by simp
  then have "count_list (chan_events (trace s')) (Chan_close ln) =
      count_list (chan_events (trace s)) (Chan_close ln)" by simp
  then show ?thesis using DoDial by (simp add: count_chan_events)
next
  case (DoListen netw address)
  then obtain r where l: "Listen e netw address s = Inr (r, s')"
    using x by (cases "Listen e netw address s") auto
  have "count_list (chan_events (trace s')) (Chan_close ln) =
      count_list (chan_events (trace s)) (Chan_close ln)"
    using Listen_trace [OF l] by simp
  then show ?thesis using DoListen by (simp add: count_chan_events)
next
  case (DoListenerClose ln')
  then obtain r where l: "listener_Close ln' s = Inr (r, s')"
    using x by (cases "listener_Close ln' s") auto
  have v': "ln' < length (heap s)"
    using l by (auto simp: listener_Close_def deref_def split: if_splits)
  show ?thesis
  proof (cases "registry s (key (heap s ! ln')) = Some ln'")
    case False
    then have "s' = s" using listener_Close_noop [OF v' wf_mu [OF w]] l by simp
    then show ?thesis using DoListenerClose False by auto
  next
    case True
    have op: "conn (heap s ! ln') = Open" using wf_registry [OF w True] by simp
    have "trace s' = trace s @ [Chan_close ln']"
      using listener_Close_effective [OF v' wf_mu [OF w] True op] l by auto
    then show ?thesis using DoListenerClose True by auto
  qed
next
  case (DoForwardTCP c prt rv)
  then have f: "forwardTCP c prt rv s = Inr s'" using x by simp
  have "trace s' = trace s @ [Conn_Close c] \<or> (\<exists>l. trace s' = trace s @ [Chan_send l c])"
  proof (cases "registry s (dispatch_key prt)")
    case None
    then show ?thesis using forwardTCP_unregistered [OF wf_mu [OF w] None] f by auto
  next
    case (Some l)
    note r = wf_registry [OF w Some]
    have "s' = s\<lparr>trace := trace s @ [Conn_Close c]\<rparr> \<or> s' = s\<lparr>trace := trace s @ [Chan_send l c]\<rparr>"
      using forwardTCP_Inr [OF f] Some by auto
    then show ?thesis by auto
  qed
  then show ?thesis using DoForwardTCP by auto
next
  case DoClose
  then obtain r where l: "Close s = Inr (r, s')"
    using x by (cases "Close s") auto
  show ?thesis using Close_returns [OF l] DoClose by simp
qed

subsection \<open>A channel is closed once\<close>

text \<open>
  Claim C10. In every state that calls on a fresh server lead to, and for every allocated
  listener: its channel has been closed at most once; \<^verbatim>\<open>Close\<close> of the listener returns
  nil, and a second \<^verbatim>\<open>Close\<close> right after it returns nil and changes nothing; the only
  call that closes the channel is a \<^verbatim>\<open>Close\<close> of this listener made while the listener
  is the one stored under its key; no further calls end in the panic of closing a closed
  channel; and in any state at all, a \<^verbatim>\<open>Close\<close> of the listener that returns, returns
  nil.
\<close>

theorem channel_closed_at_most_once:
  assumes reach: "run e cs (new_Server d st h eph fs) = Inr s"
    and valid: "ln < length (heap s)"
  shows
    "count_list (trace s) (Chan_close ln) \<le> 1 \<and>
     (\<exists>s'. listener_Close ln s = Inr (None, s') \<and> listener_Close ln s' = Inr (None, s') \<and>
           count_list (trace s') (Chan_close ln) \<le> 1) \<and>
     (\<forall>cl s'. exec e cl s = Inr s' \<longrightarrow>
        count_list (trace s') (Chan_close ln) =
          count_list (trace s) (Chan_close ln) +
            (if cl = DoListenerClose ln \<and> registry s (key (heap s ! ln)) = Some ln
             then 1 else 0)) \<and>
     (\<forall>cs'. run e cs' s \<noteq> Inl (Panic ''close of closed channel'')) \<and>
     (\<forall>x r s'. listener_Close ln x = Inr (r, s') \<longrightarrow> r = None)"
proof -
  have w: "wellformed s" using reachable_wf [OF reach] by simp
  have le: "count_list (trace s') (Chan_close ln) \<le> 1"
    if "wellformed s'" "ln < length (heap s')" for s'
    using wf_closes [OF that] by (simp add: count_chan_events)
  obtain r s' where c: "listener_Close ln s = Inr (r, s')"
  proof (cases "registry s (key (heap s ! ln)) = Some ln")
    case False
    then show ?thesis using listener_Close_noop [OF valid wf_mu [OF w]] that by blast
  next
    case True
    have "conn (heap s ! ln) = Open" using wf_registry [OF w True] by simp
    then show ?thesis using listener_Close_effective [OF valid wf_mu [OF w] True] that by blast
  qed
  have r: "r = None" by (rule listener_Close_nil [OF c])
  have w': "wellformed s'" by (rule wf_listener_Close [OF w c])
  have v': "ln < length (heap s')" using growsD [OF grows_listener_Close [OF c] valid] by simp
  have k': "key (heap s' ! ln) = key (heap s ! ln)"
    using growsD [OF grows_listener_Close [OF c] valid] by simp
  have gone: "registry s' (key (heap s' ! ln)) \<noteq> Some ln"
  proof (cases "registry s (key (heap s ! ln)) = Some ln")
    case False
    then have "s' = s" using listener_Close_noop [OF valid wf_mu [OF w]] c by simp
    then show ?thesis using False by simp
  next
    case True
    have op: "conn (heap s ! ln) = Open" using wf_registry [OF w True] by simp
    have "registry s' = (registry s)(key (heap s ! ln) := None)"
      using listener_Close_effective [OF valid wf_mu [OF w] True op] c registry_delete by auto
    then show ?thesis by (simp add: k')
  qed
  have again: "listener_Close ln s' = Inr (None, s')"
    by (rule listener_Close_noop [OF v' wf_mu [OF w'] gone])
  show ?thesis
    using le [OF w valid] c r again le [OF w' v'] count_close_exec [OF w valid]
      no_double_close_run [OF w] listener_Close_nil
    by blast
qed

theorem channel_closed_at_most_once_witness:
  "run env0 calls3 server0 = Inr server3 \<and> 0 < length (heap server3) \<and>
   count_list (trace server3) (Chan_close 0) \<le> 1 \<and>
   listener_Close 0 server3 = Inr (None, server3) \<and>
   run env0 [DoListenerClose 0, DoListenerClose 0] server3 \<noteq> Inl (Panic ''close of closed channel'')"
proof -
  have r3: "run env0 calls3 (new_Server [] None [] False (\<lambda>p. Absent)) = Inr server3"
    using run_server3 by (simp add: server0_def)
  have v0: "0 < length (heap server3)" by (simp add: server3_facts)
  have reg3: "registry server3 (dispatch_key 80) = Some 1"
    by (simp add: registry_def server3_facts)
  have m: "\<not> mu server3" using wf_mu reachable_wf [OF r3] by blast
  have n: "listener_Close 0 server3 = Inr (None, server3)"
    by (rule listener_Close_noop [OF v0 m]) (simp add: server3_facts reg3)
  note t = channel_closed_at_most_once [OF r3 v0]
  show ?thesis using run_server3 v0 t n by blast
qed

subsection \<open>Accept\<close>

text \<open>
  A listener that \<^verbatim>\<open>Listen\<close> returned is stored under its key for as long as its
  channel is open: nothing but its own \<^verbatim>\<open>Close\<close> takes it out of the map.
\<close>

lemma Listen_registry:
  assumes m: "\<not> mu s" and l: "Listen e netw address s = Inr (r, s')"
  shows "registry s' = registry s \<or>
     (\<exists>k. registry s k = None \<and> registry s' = (registry s)(k \<mapsto> length (heap s)))"
proof (cases "SplitHostPort e address")
  case (Inl err)
  then show ?thesis using l by (simp add: Listen_def)
next
  case (Inr hp)
  obtain h p where hp: "hp = (h, p)" by force
  obtain r1 s1 where st: "Start e s = (r1, s1)" by force
  have k: "registry s1 = registry s" "heap s1 = heap s"
    using registry_Start [of e s] Start_keeps [of e s] st by simp_all
  note lc = Listen_cases [OF m, of e netw address, unfolded Inr hp st, simplified]
  show ?thesis
  proof (cases r1)
    case (Some err)
    then show ?thesis using l lc k by simp
  next
    case None
    show ?thesis
    proof (cases "registry s1 \<lparr>network = netw, host = h, port = p\<rparr>")
      case taken: (Some ln')
      then have "registry s' = registry s1"
        using l lc None by (auto simp: Let_def registry_def entries_def split: option.splits)
      then show ?thesis using k by simp
    next
      case free: None
      then have "registry s' = (registry s1)(\<lparr>network = netw, host = h, port = p\<rparr> \<mapsto> length (heap s1))"
        using l lc None
        by (auto simp: Let_def registry_def entries_def update_conv' split: option.splits)
      then show ?thesis using k free by auto
    qed
  qed
qed

lemma live_exec:
  assumes w: "wellformed s" and v: "ln < length (heap s)"
    and live: "conn (heap s ! ln) = Open \<longrightarrow> registry s (key (heap s ! ln)) = Some ln"
    and x: "exec e cl s = Inr s'"
  shows "conn (heap s' ! ln) = Open \<longrightarrow> registry s' (key (heap s' ! ln)) = Some ln"
proof
  assume op': "conn (heap s' ! ln) = Open"
  note g = growsD [OF grows_exec [OF x] v]
  have k': "key (heap s' ! ln) = key (heap s ! ln)" using g by simp
  have op: "conn (heap s ! ln) = Open" using g op' by (cases "conn (heap s ! ln)") auto
  have reg: "registry s (key (heap s ! ln)) = Some ln" using live op by simp
  have "registry s' (key (heap s ! ln)) = Some ln"
  proof (cases cl)
    case DoStart
    then have "s' = snd (Start e s)" using x by auto
    then show ?thesis using registry_Start [of e s] reg by simp
  next
    case (DoDial netw address)
    have "snd (Dial e netw address s) = snd (Start e s)"
      by (simp add: Dial_def split: prod.splits option.splits)
    then have "s' = snd (Start e s)" using x DoDial by auto
    then show ?thesis using registry_Start [of e s] reg by simp
  next
    case (DoListen netw address)
    then obtain r where l: "Listen e netw address s = Inr (r, s')"
      using x by (cases "Listen e netw address s") auto
    show ?thesis
      using Listen_registry [OF wf_mu [OF w] l] reg by auto
  next
    case (DoListenerClose ln')
    then obtain r where l: "listener_Close ln' s = Inr (r, s')"
      using x by (cases "listener_Close ln' s") auto
    have v': "ln' < length (heap s)"
      using l by (auto simp: listener_Close_def deref_def split: if_splits)
    show ?thesis
    proof (cases "registry s (key (heap s ! ln')) = Some ln'")
      case False
      then have "s' = s" using listener_Close_noop [OF v' wf_mu [OF w]] l by simp
      then show ?thesis using reg by simp
    next
      case True
      have o: "conn (heap s ! ln') = Open" using wf_registry [OF w True] by simp
      have s': "s' = s\<lparr>listeners := map_option (AList.delete (key (heap s ! ln'))) (listeners s),
            heap := (heap s)[ln' := (heap s ! ln')\<lparr>conn := Closed\<rparr>],
            trace := trace s @ [Chan_close ln']\<rparr>"
        using listener_Close_effective [OF v' wf_mu [OF w] True o] l by simp
      have ne: "ln' \<noteq> ln" using op' v by (auto simp: s')
      then have "key (heap s ! ln') \<noteq> key (heap s ! ln)" using True reg by auto
      moreover have "registry s' = (registry s)(key (heap s ! ln') := None)"
        unfolding s' by (rule registry_delete)
      ultimately show ?thesis using reg by simp
    qed
  next
    case (DoForwardTCP c prt rv)
    then have f: "forwardTCP c prt rv s = Inr s'" using x by simp
    have "listeners s' = listeners s"
      using forwardTCP_Inr [OF f] by auto
    then show ?thesis using reg by (simp add: registry_def)
  next
    case DoClose
    then obtain r where l: "Close s = Inr (r, s')"
      using x by (cases "Close s") auto
    have "entries s = []" using Close_returns [OF l] by simp
    then have "registry s (key (heap s ! ln)) = None"
      by (auto simp: registry_def entries_def split: option.splits)
    then show ?thesis using reg by simp
  qed
  then show "registry s' (key (heap s' ! ln)) = Some ln" by (simp add: k')
qed

lemma live_run:
  assumes "wellformed s" "ln < length (heap s)"
    "conn (heap s ! ln) = Open \<longrightarrow> registry s (key (heap s ! ln)) = Some ln"
    "run e cs s = Inr s'"
  shows "conn (heap s' ! ln) = Open \<longrightarrow> registry s' (key (heap s' ! ln)) = Some ln"
  using assms
proof (induction cs arbitrary: s)
  case Nil
  then show ?case by simp
next
  case (Cons cl cs)
  then obtain s1 where x: "exec e cl s = Inr s1" and r: "run e cs s1 = Inr s'"
    by (cases "exec e cl s") auto
  have w1: "wellformed s1" by (rule wf_exec [OF Cons.prems(1) x])
  have v1: "ln < length (heap s1)" using growsD [OF grows_exec [OF x] Cons.prems(2)] by simp
  have l1: "conn (heap s1 ! ln) = Open \<longrightarrow> registry s1 (key (heap s1 ! ln)) = Some ln"
    by (rule live_exec [OF Cons.prems(1,2,3) x])
  show ?case by (rule Cons.IH [OF w1 v1 l1 r])
qed

lemma Listen_server0_eq: "Listen env0 ''tcp'' '':80'' server0 = Inr (Inr 0, server1)"
proof -
  obtain f r s where "Listen env0 ''tcp'' '':80'' server0 = Inl f \<or>
      Listen env0 ''tcp'' '':80'' server0 = Inr (r, s)"
    by (cases "Listen env0 ''tcp'' '':80'' server0") auto
  then have l1: "Listen env0 ''tcp'' '':80'' server0 = Inr (r, s)"
    using Listen_server0 by auto
  then have r: "r = Inr 0" using Listen_server0 by (cases r) auto
  show ?thesis by (simp add: server1_def l1 r)
qed

lemma run_server1_server3:
  "run env0 [DoListenerClose 0, DoListen ''tcp'' '':80''] server1 = Inr server3"
  using run_server3 by (simp add: calls3_def Listen_server0_eq)

text \<open>
  Claim C7. Take a listener that \<^verbatim>\<open>Listen\<close> returned in a state that calls on a fresh
  server lead to, and any further calls. The channel of the listener is closed exactly
  when a \<^verbatim>\<open>Close\<close> of the listener has closed it. While it is open, \<^verbatim>\<open>Accept\<close> blocks
  when no connection is offered and returns the connection that the dispatcher sends,
  and a \<^verbatim>\<open>Close\<close> of the listener returns nil and closes the channel. Once it is closed,
  after any further calls on the server the listener is still there and still closed, and
  \<^verbatim>\<open>Accept\<close> returns the error of \<^verbatim>\<open>net.ErrClosed\<close>, whether or not a connection is
  offered: it never blocks again.
\<close>

theorem Accept_until_closed:
  assumes reach: "run e cs0 (new_Server d st h eph fs) = Inr s0"
    and listen: "Listen e netw address s0 = Inr (Inr ln, s1)"
    and later: "run e cs s1 = Inr s"
  shows
    "ln < length (heap s) \<and>
     (conn (heap s ! ln) = Closed \<longleftrightarrow> Chan_close ln \<in> set (trace s)) \<and>
     (case conn (heap s ! ln) of
        Open \<Rightarrow>
          listener_Accept (heap s ! ln) None = Blocks \<and>
          (\<forall>c. listener_Accept (heap s ! ln) (Some c) = Returns (Inr c)) \<and>
          (\<exists>s'. listener_Close ln s = Inr (None, s') \<and> conn (heap s' ! ln) = Closed)
      | Closed \<Rightarrow>
          (\<forall>cs' s' offered. run e cs' s = Inr s' \<longrightarrow>
             ln < length (heap s') \<and> conn (heap s' ! ln) = Closed \<and>
             listener_Accept (heap s' ! ln) offered =
               Returns (Inl (Errorf ''tsnet: %w'' [E ErrClosed]))))"
proof -
  have w0: "wellformed s0" using reachable_wf [OF reach] by simp
  have x: "exec e (DoListen netw address) s0 = Inr s1" using listen by simp
  have w1: "wellformed s1" by (rule wf_exec [OF w0 x])
  obtain hst prt where sp: "SplitHostPort e address = Inr (hst, prt)"
    using listen by (cases "SplitHostPort e address") (auto simp: Listen_def)
  note ls = Listen_success [OF wf_mu [OF w0] listen sp]
  have v1: "ln < length (heap s1)" using ls by simp
  have l1: "conn (heap s1 ! ln) = Open \<longrightarrow> registry s1 (key (heap s1 ! ln)) = Some ln"
    using ls by simp
  have w: "wellformed s" by (rule wf_run [OF w1 later])
  have valid: "ln < length (heap s)" using growsD [OF grows_run [OF later] v1] by simp
  have live: "conn (heap s ! ln) = Open \<longrightarrow> registry s (key (heap s ! ln)) = Some ln"
    by (rule live_run [OF w1 v1 l1 later])
  have cnt: "count_list (trace s) (Chan_close ln) = (if conn (heap s ! ln) = Closed then 1 else 0)"
    using wf_closes [OF w valid] by (simp add: count_chan_events)
  have first: "conn (heap s ! ln) = Closed \<longleftrightarrow> Chan_close ln \<in> set (trace s)"
  proof (cases "conn (heap s ! ln) = Closed")
    case True
    then have "count_list (trace s) (Chan_close ln) \<noteq> 0" using cnt by simp
    then show ?thesis using True by (simp add: count_list_0_iff)
  next
    case False
    then have "count_list (trace s) (Chan_close ln) = 0" using cnt by simp
    then show ?thesis using False by (simp add: count_list_0_iff)
  qed
  show ?thesis
  proof (cases "conn (heap s ! ln)")
    case Open
    have reg: "registry s (key (heap s ! ln)) = Some ln" using live Open by simp
    have "listener_Close ln s =
       Inr (None, s\<lparr>listeners := map_option (AList.delete (key (heap s ! ln))) (listeners s),
            heap := (heap s)[ln := (heap s ! ln)\<lparr>conn := Closed\<rparr>],
            trace := trace s @ [Chan_close ln]\<rparr>)"
      by (rule listener_Close_effective [OF valid wf_mu [OF w] reg Open])
    then have "\<exists>s'. listener_Close ln s = Inr (None, s') \<and> conn (heap s' ! ln) = Closed"
      using valid by simp
    then show ?thesis using valid first Open Accept_open [of "heap s ! ln"] by simp
  next
    case Closed
    have "ln < length (heap s') \<and> conn (heap s' ! ln) = Closed \<and>
             listener_Accept (heap s' ! ln) offered =
               Returns (Inl (Errorf ''tsnet: %w'' [E ErrClosed]))"
      if "run e cs' s = Inr s'" for cs' s' offered
    proof -
      have "ln < length (heap s') \<and> conn (heap s' ! ln) = Closed"
        using growsD [OF grows_run [OF that] valid] Closed by simp
      then show ?thesis using Accept_closed by simp
    qed
    then show ?thesis using valid first Closed by simp
  qed
qed

theorem Accept_until_closed_witness:
  "run env0 [] server0 = Inr server0 \<and>
   Listen env0 ''tcp'' '':80'' server0 = Inr (Inr 0, server1) \<and>
   run env0 [] server1 = Inr server1 \<and>
   run env0 [DoListenerClose 0, DoListen ''tcp'' '':80''] server1 = Inr server3 \<and>
   listener_Accept (heap server1 ! 0) None = Blocks \<and>
   listener_Accept (heap server1 ! 0) (Some 7) = Returns (Inr 7) \<and>
   Chan_close 0 \<notin> set (trace server1) \<and>
   Chan_close 0 \<in> set (trace server3) \<and>
   listener_Accept (heap server3 ! 0) None = Returns (Inl (Errorf ''tsnet: %w'' [E ErrClosed])) \<and>
   listener_Accept (heap server3 ! 0) (Some 7) = Returns (Inl (Errorf ''tsnet: %w'' [E ErrClosed]))"
proof -
  have r0: "run env0 [] (new_Server [] None [] False (\<lambda>p. Absent)) = Inr server0"
    by (simp add: server0_def)
  have c1: "conn (heap server1 ! 0) = Open" by (simp add: server1_heap)
  have c3: "conn (heap server3 ! 0) = Closed" by (simp add: server3_facts)
  have e1: "run env0 [] server1 = Inr server1" and e3: "run env0 [] server3 = Inr server3"
    by simp_all
  note t1 = Accept_until_closed [OF r0 Listen_server0_eq e1, unfolded c1, simplified]
  note t3 = Accept_until_closed [OF r0 Listen_server0_eq run_server1_server3, unfolded c3, simplified]
  have a: "listener_Accept (heap server3 ! 0) offered = Returns (Inl (Errorf ''tsnet: %w'' [E ErrClosed]))"
    for offered
    using t3 e3 by blast
  show ?thesis using Listen_server0_eq run_server1_server3 t1 t3 a by simp
qed

subsection \<open>The state directory\<close>

lemma settled_refl: "settled s s"
  by (simp add: settled_def)

lemma settled_trans: "settled s s1 \<Longrightarrow> settled s1 s2 \<Longrightarrow> settled s s2"
  by (simp add: settled_def)

lemma settled_and_then:
  "settled s (snd r) \<Longrightarrow> (\<And>s1. settled s1 (snd (f s1))) \<Longrightarrow> settled s (snd (and_then r f))"
  by (cases r) (auto simp: and_then_def split: option.splits intro: settled_trans)

lemma settled_start_Stat: "settled s (snd (start_Stat s))"
  by (simp add: start_Stat_def settled_refl split: sum.splits)

lemma settled_start_netstack: "settled s (snd (start_netstack e s))"
  by (simp add: start_netstack_def Let_def emit_def renames_def settled_def
      split: option.splits)

lemma settled_start_store: "settled s (snd (start_store e s))"
  by (simp add: start_store_def Let_def emit_def renames_def settled_def
      split: sum.splits)

lemma settled_start_lb: "settled s (snd (start_lb e s))"
  by (simp add: start_lb_def Let_def emit_def renames_def settled_def
      split: option.splits)

lemma settled_start_login: "settled s (snd (start_login e s))"
  by (simp add: start_login_def Let_def emit_def renames_def settled_def)

lemma settled_rest:
  "settled s (snd (and_then (start_Stat s) (\<lambda>s3.
             and_then (start_netstack e s3) (\<lambda>s4.
             and_then (start_store e s4) (\<lambda>s5.
             and_then (start_lb e s5) (start_login e))))))"
  by (intro settled_and_then settled_start_Stat settled_start_netstack
      settled_start_store settled_start_lb settled_start_login)

lemma count_renames:
  "count_list (renames tr) (Call_Rename a b) = count_list tr (Call_Rename a b)"
  by (induction tr) (simp_all add: renames_def)

lemma start_fresh_settled:
  assumes exe: "os_Executable e = Inr exe"
    and policy: "case st of None \<Rightarrow> True | Some x \<Rightarrow> eph \<or> is_mem_Store x"
    and prog: "prog = TrimSuffix (strings_ToLower e (filepath_Base e exe)) ''.exe''"
    and s1: "s1 = (new_Server [] st h eph fs)\<lparr>shutdownCtx := Some Active,
               hostname := (if h = [] then prog else h), rootPath := []\<rparr>"
    and ok: "start_confDir e prog s1 = (None, s2)"
  shows "settled s2 (snd (Start e (new_Server [] st h eph fs)))"
proof -
  let ?s0 = "new_Server [] st h eph fs"
  let ?rest = "\<lambda>s2. and_then (start_Stat s2) (\<lambda>s3.
             and_then (start_netstack e s3) (\<lambda>s4.
             and_then (start_store e s4) (\<lambda>s5.
             and_then (start_lb e s5) (start_login e))))"
  have s1': "s1 = (?s0\<lparr>shutdownCtx := Some Active\<rparr>)\<lparr>hostname := (if Hostname (?s0\<lparr>shutdownCtx := Some Active\<rparr>) = [] then prog else Hostname (?s0\<lparr>shutdownCtx := Some Active\<rparr>)),
       rootPath := Dir (?s0\<lparr>shutdownCtx := Some Active\<rparr>)\<rparr>"
    by (simp add: s1 new_Server_def)
  have pol: "\<not> (case Store s1 of None \<Rightarrow> False | Some x \<Rightarrow> \<not> Ephemeral s1 \<and> \<not> is_mem_Store x)"
    using policy by (cases st) (simp_all add: s1 new_Server_def)
  have st: "start e (?s0\<lparr>shutdownCtx := Some Active\<rparr>) = ?rest s2"
    unfolding start_def exe sum.case Let_def prog [symmetric] s1' [symmetric]
    using pol by (simp add: ok and_then_def)
  have io: "\<not> initOnce ?s0" by (simp add: new_Server_def)
  obtain r s3 where rest: "?rest s2 = (r, s3)" by force
  have di: "doInit e ?s0 = (case r of Some err \<Rightarrow> s3\<lparr>initErr := Some (Errorf ''tsnet: %w'' [E err])\<rparr>
                            | None \<Rightarrow> s3)"
    by (cases r) (simp_all add: doInit_def st rest)
  have "snd (Start e ?s0) = (doInit e ?s0)\<lparr>initOnce := True\<rparr>"
    using io by (simp add: Start_def Let_def)
  then have "settled s3 (snd (Start e ?s0))"
    by (cases r) (simp_all add: di settled_def)
  moreover have "settled s2 s3" using settled_rest [of s2 e] rest by simp
  ultimately show ?thesis by (rule settled_trans [rotated])
qed

lemma start_confDir_only_old:
  assumes conf: "os_UserConfigDir e = Inr confDir"
    and root: "rootPath s = []" and tr: "renames (trace s) = []"
    and old: "old = filepath_Join e confDir (''tslib-'' @ prog)"
    and new: "new = filepath_Join e confDir (''tsnet-'' @ prog)"
    and fs: "files s old = Directory" "files s new = Absent"
  shows "\<exists>s2. start_confDir e prog s = (None, s2) \<and>
     files s2 = (files s)(old := Absent, new := Directory) \<and> rootPath s2 = new \<and>
     renames (trace s2) = [Call_Rename old new]"
proof -
  have ne: "old \<noteq> new" using fs by auto
  have g: "getTSNetDir e confDir prog s =
     (Inr new, emit [Call_Rename old new,
                     Logf ''renamed old tsnet state storage directory %q to %q'' [old, new]]
                 (s\<lparr>files := (files s)(old := Absent, new := Directory)\<rparr>))"
    using fs ne unfolding old new
    by (simp add: getTSNetDir_def Let_def os_Lstat_def os_Rename_def)
  show ?thesis
    using root tr ne
    by (simp add: start_confDir_def conf g os_MkdirAll_def emit_def renames_def)
qed

lemma start_confDir_both:
  assumes conf: "os_UserConfigDir e = Inr confDir"
    and root: "rootPath s = []" and tr: "renames (trace s) = []"
    and old: "old = filepath_Join e confDir (''tslib-'' @ prog)"
    and new: "new = filepath_Join e confDir (''tsnet-'' @ prog)"
    and fs: "files s old = Directory" "files s new = Directory"
  shows "\<exists>s2. start_confDir e prog s = (None, s2) \<and>
     files s2 = files s \<and> rootPath s2 = new \<and> renames (trace s2) = []"
proof -
  have g: "getTSNetDir e confDir prog s = (Inr new, s)"
    using fs unfolding old new
    by (simp add: getTSNetDir_def Let_def os_Lstat_def)
  show ?thesis
    using root tr fs
    by (simp add: start_confDir_def conf g os_MkdirAll_def emit_def renames_def)
qed

lemma start_confDir_neither:
  assumes conf: "os_UserConfigDir e = Inr confDir"
    and root: "rootPath s = []" and tr: "renames (trace s) = []"
    and old: "old = filepath_Join e confDir (''tslib-'' @ prog)"
    and new: "new = filepath_Join e confDir (''tsnet-'' @ prog)"
    and fs: "files s old = Absent" "files s new = Absent"
  shows "\<exists>s2. start_confDir e prog s = (None, s2) \<and>
     files s2 = (files s)(new := Directory) \<and> rootPath s2 = new \<and> renames (trace s2) = [] \<and>
     Call_MkdirAll new \<in> set (trace s2)"
proof -
  have g: "getTSNetDir e confDir prog s = (Inr new, s)"
    using fs unfolding old new
    by (simp add: getTSNetDir_def Let_def os_Lstat_def)
  show ?thesis
    using root tr fs
    by (simp add: start_confDir_def conf g os_MkdirAll_def emit_def renames_def)
qed

lemma Starts_snd: "snd (Starts e (Suc n) s) = snd (Start e s)"
proof -
  obtain r s1 where st: "Start e s = (r, s1)" by force
  have "initOnce s1" using initOnce_Start [of e s] st by simp
  then show ?thesis using Starts_latched [of s1 e n] by (simp add: st)
qed

text \<open>
  Claim C8. Let a fresh server with no directory configured start where the executable
  and the configuration directory are known and the store check passes, and let \<open>old\<close>
  and \<open>new\<close> be the paths \<^verbatim>\<open>tslib-prog\<close> and \<^verbatim>\<open>tsnet-prog\<close> in the configuration
  directory. If \<open>old\<close> is a directory and \<open>new\<close> does not exist, then after \<^verbatim>\<open>Start\<close>
  \<open>old\<close> is gone, \<open>new\<close> is a directory and the state directory, and the trace has one
  rename, from \<open>old\<close> to \<open>new\<close>; further calls of \<^verbatim>\<open>Start\<close> change nothing. If both
  are directories, the file system is untouched, nothing is renamed and \<open>new\<close> is the
  state directory. If neither exists, \<open>new\<close> is created and is the state directory, and
  nothing is renamed.
\<close>

theorem state_directory_migration:
  assumes exe: "os_Executable e = Inr exe"
    and conf: "os_UserConfigDir e = Inr confDir"
    and policy: "case st of None \<Rightarrow> True | Some x \<Rightarrow> eph \<or> is_mem_Store x"
    and prog: "prog = TrimSuffix (strings_ToLower e (filepath_Base e exe)) ''.exe''"
    and old: "old = filepath_Join e confDir (''tslib-'' @ prog)"
    and new: "new = filepath_Join e confDir (''tsnet-'' @ prog)"
    and s': "s' = snd (Start e (new_Server [] st h eph fs))"
  shows
    "(fs old = Directory \<and> fs new = Absent \<longrightarrow>
        files s' = fs(old := Absent, new := Directory) \<and> rootPath s' = new \<and>
        renames (trace s') = [Call_Rename old new] \<and>
        count_list (trace s') (Call_Rename old new) = 1 \<and>
        (\<forall>n. snd (Starts e (Suc n) (new_Server [] st h eph fs)) = s')) \<and>
     (fs old = Directory \<and> fs new = Directory \<longrightarrow>
        files s' = fs \<and> rootPath s' = new \<and> renames (trace s') = []) \<and>
     (fs old = Absent \<and> fs new = Absent \<longrightarrow>
        files s' = fs(new := Directory) \<and> rootPath s' = new \<and> renames (trace s') = [])"
proof -
  define s1 where "s1 = (new_Server [] st h eph fs)\<lparr>shutdownCtx := Some Active,
               hostname := (if h = [] then prog else h), rootPath := []\<rparr>"
  have root: "rootPath s1 = []" and tr: "renames (trace s1) = []" and f1: "files s1 = fs"
    by (simp_all add: s1_def new_Server_def renames_def)
  note fin = start_fresh_settled [OF exe policy prog s1_def, folded s']
  have a: "files s' = fs(old := Absent, new := Directory) \<and> rootPath s' = new \<and>
        renames (trace s') = [Call_Rename old new] \<and>
        count_list (trace s') (Call_Rename old new) = 1 \<and>
        (\<forall>n. snd (Starts e (Suc n) (new_Server [] st h eph fs)) = s')"
    if p: "fs old = Directory" "fs new = Absent"
  proof -
    obtain s2 where s2: "start_confDir e prog s1 = (None, s2)"
      "files s2 = fs(old := Absent, new := Directory)" "rootPath s2 = new"
      "renames (trace s2) = [Call_Rename old new]"
      using start_confDir_only_old [OF conf root tr old new, unfolded f1, OF p] by blast
    have st: "settled s2 s'" by (rule fin [OF s2(1)])
    have r: "renames (trace s') = [Call_Rename old new]" using st s2 by (simp add: settled_def)
    have "count_list (renames (trace s')) (Call_Rename old new) = 1" by (simp add: r)
    then have "count_list (trace s') (Call_Rename old new) = 1" by (simp add: count_renames)
    then show ?thesis using st s2 r Starts_snd [of e _ "new_Server [] st h eph fs"]
      by (simp add: settled_def s')
  qed
  have b: "files s' = fs \<and> rootPath s' = new \<and> renames (trace s') = []"
    if p: "fs old = Directory" "fs new = Directory"
  proof -
    obtain s2 where s2: "start_confDir e prog s1 = (None, s2)"
      "files s2 = fs" "rootPath s2 = new" "renames (trace s2) = []"
      using start_confDir_both [OF conf root tr old new, unfolded f1, OF p] by blast
    have st: "settled s2 s'" by (rule fin [OF s2(1)])
    then show ?thesis using s2 by (simp add: settled_def)
  qed
  have c: "files s' = fs(new := Directory) \<and> rootPath s' = new \<and> renames (trace s') = []"
    if p: "fs old = Absent" "fs new = Absent"
  proof -
    obtain s2 where s2: "start_confDir e prog s1 = (None, s2)"
      "files s2 = fs(new := Directory)" "rootPath s2 = new" "renames (trace s2) = []"
      using start_confDir_neither [OF conf root tr old new, unfolded f1, OF p] by blast
    have st: "settled s2 s'" by (rule fin [OF s2(1)])
    then show ?thesis using s2 by (simp add: settled_def)
  qed
  show ?thesis using a b c by blast
qed

theorem state_directory_migration_witness:
  "os_Executable env0 = Inr ''/usr/bin/App'' \<and> os_UserConfigDir env0 = Inr ''/cfg'' \<and>
   TrimSuffix (strings_ToLower env0 (filepath_Base env0 ''/usr/bin/App'')) ''.exe'' = ''app'' \<and>
   filepath_Join env0 ''/cfg'' (''tslib-'' @ ''app'') = ''/cfg/tslib-app'' \<and>
   filepath_Join env0 ''/cfg'' (''tsnet-'' @ ''app'') = ''/cfg/tsnet-app'' \<and>
   files (snd (Start env0 (new_Server [] None [] False fs_old))) ''/cfg/tslib-app'' = Absent \<and>
   files (snd (Start env0 (new_Server [] None [] False fs_old))) ''/cfg/tsnet-app'' = Directory \<and>
   rootPath (snd (Start env0 (new_Server [] None [] False fs_old))) = ''/cfg/tsnet-app'' \<and>
   count_list (trace (snd (Start env0 (new_Server [] None [] False fs_old))))
     (Call_Rename ''/cfg/tslib-app'' ''/cfg/tsnet-app'') = 1 \<and>
   files (snd (Start env0 (new_Server [] None [] False fs_both))) = fs_both \<and>
   renames (trace (snd (Start env0 (new_Server [] None [] False fs_both)))) = [] \<and>
   files (snd (Start env0 server0)) ''/cfg/tsnet-app'' = Directory \<and>
   renames (trace (snd (Start env0 server0))) = []"
proof -
  have exe: "os_Executable env0 = Inr ''/usr/bin/App''" by (simp add: env0_def)
  have conf: "os_UserConfigDir env0 = Inr ''/cfg''" by (simp add: env0_def)
  have pol: "case None :: StateStore option of None \<Rightarrow> True | Some x \<Rightarrow> False \<or> is_mem_Store x"
    by simp
  have prog: "''app'' = TrimSuffix (strings_ToLower env0 (filepath_Base env0 ''/usr/bin/App'')) ''.exe''"
    by code_simp
  have old: "''/cfg/tslib-app'' = filepath_Join env0 ''/cfg'' (''tslib-'' @ ''app'')" by code_simp
  have new: "''/cfg/tsnet-app'' = filepath_Join env0 ''/cfg'' (''tsnet-'' @ ''app'')" by code_simp
  note t1 = state_directory_migration [OF exe conf pol prog old new refl, where h = "[]" and fs = fs_old]
  note t2 = state_directory_migration [OF exe conf pol prog old new refl, where h = "[]" and fs = fs_both]
  note t3 = state_directory_migration [OF exe conf pol prog old new refl, where h = "[]" and fs = "\<lambda>p. Absent"]
  have a: "fs_old ''/cfg/tslib-app'' = Directory \<and> fs_old ''/cfg/tsnet-app'' = Absent"
    by (simp add: fs_old_def)
  have b: "fs_both ''/cfg/tslib-app'' = Directory \<and> fs_both ''/cfg/tsnet-app'' = Directory"
    by (simp add: fs_both_def)
  show ?thesis
    using t1 t2 t3 a b exe conf prog [symmetric] old [symmetric] new [symmetric]
    by (simp add: server0_def)
qed

subsection \<open>Close with registered listeners\<close>

text \<open>
  On a started server in a well-formed state, \<^verbatim>\<open>Server.Close\<close> with any listener in
  the map does not return.
\<close>

lemma Close_deadlocks:
  assumes w: "wellformed s" and ne: "entries s \<noteq> []"
    and p: "shutdownCtx s \<noteq> None" "lb s \<noteq> None" "linkMon s \<noteq> None" "localAPIListener s \<noteq> None"
  shows "Close s = Inl Deadlock"
proof -
  define s3 where "s3 = (emit [Call_lb_Shutdown, Call_linkMon_Close, Call_localAPIListener_Close]
      (emit [Call_shutdownCancel] (s\<lparr>shutdownCtx := Some Canceled\<rparr>)))\<lparr>mu := True\<rparr>"
  obtain k ln rest where e: "entries s = (k, ln) # rest" using ne by (cases "entries s") auto
  have "ln < length (heap s)" using wf_entry [OF w, of k ln] e by simp
  then have "listener_Close ln s3 = Inl Deadlock"
    by (simp add: listener_Close_def deref_def Lock_def s3_def emit_def)
  then have f: "close_all (map snd (entries s)) s3 = Inl Deadlock" by (simp add: e)
  have ent: "(case listeners s3 of None \<Rightarrow> [] | Some al \<Rightarrow> al) = entries s"
    by (simp add: s3_def emit_def entries_def)
  show ?thesis
    using p f ent wf_mu [OF w]
    by (auto simp: Close_def Let_def Lock_def emit_def s3_def split: option.splits)
qed

text \<open>
  Claim C2. The claim is that \<^verbatim>\<open>Server.Close\<close> closes every registered listener and
  leaves the map empty, for a map that is not empty too. \<^verbatim>\<open>Close\<close> takes \<^verbatim>\<open>s.mu\<close> and
  then calls \<^verbatim>\<open>ln.Close()\<close>, which takes \<^verbatim>\<open>s.mu\<close> again: on a started server with the
  one listener of \<^verbatim>\<open>Listen("tcp", ":80")\<close>, \<^verbatim>\<open>Close\<close> does not return. With no
  listener registered it returns nil and the map is nil.
\<close>

theorem Close_with_a_listener_deadlocks:
  "(case Listen env0 ''tcp'' '':80'' server0 of
      Inr (Inr ln, s) \<Rightarrow>
        registry s \<lparr>network = ''tcp'', host = [], port = ''80''\<rparr> = Some ln \<and>
        (case Close s of Inl Deadlock \<Rightarrow> True | _ \<Rightarrow> False)
    | _ \<Rightarrow> False) \<and>
   (case Close (snd (Start env0 server0)) of
      Inr (None, s) \<Rightarrow> listeners s = None
    | _ \<Rightarrow> False)"
  by code_simp

end
